theory Spec2Isabelle
  imports
    Main
    "HOL-Library.AList"
    "HOL-Library.Multiset"
    "HOL-Library.Char_ord"
    "HOL-Library.List_Lexorder"
begin

section \<open>JavaScript values\<close>

text \<open>
  Strings are lists of 8-bit characters; the model covers ASCII text. An optional
  property is an \<^typ>\<open>'a option\<close>, \<^const>\<open>None\<close> for \<^verbatim>\<open>undefined\<close>.
\<close>

subsection \<open>Plain objects\<close>

text \<open>
  A \<^verbatim>\<open>Record<string, V>\<close> is a plain object. Its own properties are an association
  list in insertion order, with no key twice (integer-like keys, which JavaScript
  enumerates first, are not treated apart). Its prototype is \<^verbatim>\<open>Object.prototype\<close>,
  whose members are the twelve below: eleven functions, and the accessor \<^verbatim>\<open>__proto__\<close>
  whose getter returns \<^verbatim>\<open>Object.prototype\<close> itself. All of them are truthy and none is
  nullish.
\<close>

definition objectPrototypeMembers :: "string list" where
  "objectPrototypeMembers =
     [''constructor'', ''__defineGetter__'', ''__defineSetter__'', ''hasOwnProperty'',
      ''__lookupGetter__'', ''__lookupSetter__'', ''isPrototypeOf'', ''propertyIsEnumerable'',
      ''toString'', ''valueOf'', ''__proto__'', ''toLocaleString'']"

text \<open>
  What \<^verbatim>\<open>obj[k]\<close> evaluates to: the own property \<open>k\<close> when there is one, else the member
  \<open>k\<close> of \<^verbatim>\<open>Object.prototype\<close> when there is one, else \<^verbatim>\<open>undefined\<close>.
\<close>

datatype 'v property = Own 'v | Inherited string | Undefined

definition getProperty :: "(string \<times> 'v) list \<Rightarrow> string \<Rightarrow> 'v property" where
  "getProperty obj k =
     (case map_of obj k of
        Some v \<Rightarrow> Own v
      | None \<Rightarrow> if k \<in> set objectPrototypeMembers then Inherited k else Undefined)"

text \<open>
  The assignment \<^verbatim>\<open>obj[k] = v\<close> of a number or a string \<open>v\<close>. It overwrites the own
  property \<open>k\<close> in place, or appends it. When \<open>k\<close> is \<^verbatim>\<open>__proto__\<close> and the object has no
  own property of that name, the assignment runs the setter of \<^verbatim>\<open>Object.prototype\<close>,
  which ignores a value that is not an object: nothing is stored.
\<close>

definition setProperty :: "(string \<times> 'v) list \<Rightarrow> string \<Rightarrow> 'v \<Rightarrow> (string \<times> 'v) list" where
  "setProperty obj k v =
     (if k = ''__proto__'' \<and> map_of obj k = None then obj else AList.update k v obj)"

text \<open>
  \<^verbatim>\<open>{ ...obj }\<close>: the own properties of \<^verbatim>\<open>obj\<close> are defined, in order, on a new object.
  A property defined by a spread or by a computed key \<^verbatim>\<open>[k]: v\<close> of an object literal is
  an own property whatever its name: this is \<^const>\<open>AList.update\<close>.
\<close>

definition spread :: "(string \<times> 'v) list \<Rightarrow> (string \<times> 'v) list" where
  "spread obj = foldl (\<lambda>out e. AList.update (fst e) (snd e) out) [] obj"

subsection \<open>Numbers\<close>

text \<open>
  A \<^verbatim>\<open>number\<close> is an IEEE 754 double. The model has the doubles whose value is an
  integer, the two infinities and \<^verbatim>\<open>NaN\<close>; the counts of occurrences are integers. The
  sum of two integers is the double nearest to it, the one with the even significand
  of 53 bits when two are as near, and an infinity from \<open>2^1024 - 2^970\<close> on.
\<close>

datatype number = Finite int | PlusInfinity | MinusInfinity | NaN

function bitLength :: "int \<Rightarrow> nat" where
  "bitLength n = (if n \<le> 0 then 0 else Suc (bitLength (n div 2)))"
  by pat_completeness auto
termination
  by (relation "measure nat") auto

declare bitLength.simps [simp del]

definition roundDouble :: "int \<Rightarrow> number" where
  "roundDouble n =
     (let m = \<bar>n\<bar> in
      if m < 2 ^ 53 then Finite n
      else
        let sh = bitLength m - 53;
            q = m div 2 ^ sh;
            r = m mod 2 ^ sh;
            half = 2 ^ (sh - 1);
            q' = (if half < r \<or> (r = half \<and> odd q) then q + 1 else q);
            v = q' * 2 ^ sh
        in if 2 ^ 1024 \<le> v then (if n < 0 then MinusInfinity else PlusInfinity)
           else Finite (if n < 0 then - v else v))"

fun addNumber :: "number \<Rightarrow> number \<Rightarrow> number" where
  "addNumber (Finite a) (Finite b) = roundDouble (a + b)"
| "addNumber NaN y = NaN"
| "addNumber x NaN = NaN"
| "addNumber PlusInfinity MinusInfinity = NaN"
| "addNumber MinusInfinity PlusInfinity = NaN"
| "addNumber PlusInfinity y = PlusInfinity"
| "addNumber x PlusInfinity = PlusInfinity"
| "addNumber MinusInfinity y = MinusInfinity"
| "addNumber x MinusInfinity = MinusInfinity"

subsection \<open>The operator \<^verbatim>\<open>+\<close>\<close>

text \<open>
  The values that the counts of an occurrences mapping take: numbers, and the strings
  that \<^verbatim>\<open>+\<close> makes when an operand is not a number. Such a string is kept as the list of
  the pieces it was concatenated from: the text that a member of \<^verbatim>\<open>Object.prototype\<close>
  converts to (the source text of a function, \<^verbatim>\<open>[object Object]\<close> for the prototype),
  and the decimal text of a number.
\<close>

datatype fragment = MemberText string | NumberText number

datatype jsvalue = Num number | Str "fragment list"

fun toText :: "jsvalue \<Rightarrow> fragment list" where
  "toText (Num n) = [NumberText n]"
| "toText (Str s) = s"

fun plusValue :: "jsvalue \<Rightarrow> jsvalue \<Rightarrow> jsvalue" where
  "plusValue (Num a) (Num b) = Num (addNumber a b)"
| "plusValue x y = Str (toText x @ toText y)"

section \<open>Data model (types/api.ts)\<close>

type_synonym PdfName = string

datatype FieldKind = Text | Number | Checkbox | Radio | Date

text \<open>
  The counts of \<^verbatim>\<open>occurrences\<close> are declared as numbers; the mapping that
  \<^verbatim>\<open>mergeOccurrences\<close> returns can hold strings, so the values are of type \<^typ>\<open>jsvalue\<close>.
\<close>

record FieldDef =
  name :: string
  kind :: FieldKind
  required :: "bool option"
  options :: "string list option"
  occurrences :: "(PdfName \<times> jsvalue) list option"

text \<open>The property names \<^verbatim>\<open>fields\<close> and \<^verbatim>\<open>notes\<close> are reserved words here, hence the suffix.\<close>

record CombinedFieldsResponse =
  fields_r :: "FieldDef list"
  notes_r :: "string list option"

section \<open>lib/dedupeFields.ts\<close>

subsection \<open>normalizeName\<close>

text \<open>
  \<^verbatim>\<open>name.trim().toLowerCase()\<close>. On ASCII, \<^verbatim>\<open>trim\<close> removes the leading and the
  trailing characters TAB, LF, VT, FF, CR and SPACE, and \<^verbatim>\<open>toLowerCase\<close> maps
  \<^verbatim>\<open>A\<close>..\<^verbatim>\<open>Z\<close> to \<^verbatim>\<open>a\<close>..\<^verbatim>\<open>z\<close>.
\<close>

definition isWhiteSpace :: "char \<Rightarrow> bool" where
  "isWhiteSpace c = (of_char c \<in> {9, 10, 11, 12, 13, 32 :: nat})"

definition trim :: "string \<Rightarrow> string" where
  "trim s = rev (dropWhile isWhiteSpace (rev (dropWhile isWhiteSpace s)))"

definition lowerChar :: "char \<Rightarrow> char" where
  "lowerChar c =
     (let n = (of_char c :: nat) in if 65 \<le> n \<and> n \<le> 90 then char_of (n + 32) else c)"

definition toLowerCase :: "string \<Rightarrow> string" where
  "toLowerCase s = map lowerChar s"

definition normalizeName :: "string \<Rightarrow> string" where
  "normalizeName nm = toLowerCase (trim nm)"

subsection \<open>mergeOccurrences\<close>

text \<open>
  One iteration of \<^verbatim>\<open>out[pdf] = (out[pdf] ?? 0) + (count ?? 0)\<close>, where \<^verbatim>\<open>out\<close> is a plain
  object. The count of an entry is a number or a string, never nullish, so
  \<^verbatim>\<open>count ?? 0\<close> is the count itself. \<^verbatim>\<open>out[pdf]\<close> is nullish only when it is
  \<^verbatim>\<open>undefined\<close>; when it is a member of \<^verbatim>\<open>Object.prototype\<close>, \<^verbatim>\<open>+\<close> converts both
  operands to strings and concatenates them.
\<close>

definition addCount :: "(PdfName \<times> jsvalue) list \<Rightarrow> PdfName \<times> jsvalue \<Rightarrow> (PdfName \<times> jsvalue) list" where
  "addCount out e =
     (case e of (pdf, cnt) \<Rightarrow>
        setProperty out pdf
          (case getProperty out pdf of
             Own v \<Rightarrow> plusValue v cnt
           | Inherited m \<Rightarrow> Str (MemberText m # toText cnt)
           | Undefined \<Rightarrow> plusValue (Num (Finite 0)) cnt))"

definition mergeOccurrences ::
    "(PdfName \<times> jsvalue) list option \<Rightarrow> (PdfName \<times> jsvalue) list option
      \<Rightarrow> (PdfName \<times> jsvalue) list option" where
  "mergeOccurrences a b =
     (if a = None \<and> b = None then None
      else
        let out0 = [];
            out1 = (case a of None \<Rightarrow> out0 | Some ea \<Rightarrow> foldl addCount out0 ea);
            out2 = (case b of None \<Rightarrow> out1 | Some eb \<Rightarrow> foldl addCount out1 eb)
        in Some out2)"

subsection \<open>dedupeFields\<close>

text \<open>
  \<^verbatim>\<open>[...new Set(xs)]\<close>: a \<^verbatim>\<open>Set\<close> keeps its members in insertion order and
  ignores the insertion of a member it already has.
\<close>

definition setAdd :: "string list \<Rightarrow> string \<Rightarrow> string list" where
  "setAdd s x = (if x \<in> set s then s else s @ [x])"

definition newSet :: "string list \<Rightarrow> string list" where
  "newSet xs = foldl setAdd [] xs"

text \<open>The clone stored at the first occurrence of a key (line 26).\<close>

definition cloneField :: "FieldDef \<Rightarrow> FieldDef" where
  "cloneField f =
     f\<lparr>options := (case options f of None \<Rightarrow> None | Some os \<Rightarrow> Some (newSet os)),
       occurrences := (case occurrences f of None \<Rightarrow> None | Some oc \<Rightarrow> Some (spread oc))\<rparr>"

text \<open>The entry stored at a later occurrence of a key (lines 30 to 41).\<close>

definition orEmpty :: "string list option \<Rightarrow> string list" where
  "orEmpty os = (case os of None \<Rightarrow> [] | Some xs \<Rightarrow> xs)"

definition mergeField :: "FieldDef \<Rightarrow> FieldDef \<Rightarrow> FieldDef" where
  "mergeField existing f =
     (let merged0 = existing\<lparr>occurrences := mergeOccurrences (occurrences existing) (occurrences f)\<rparr>;
          merged1 = (if options existing \<noteq> None \<or> options f \<noteq> None
                     then merged0\<lparr>options := Some (newSet (orEmpty (options existing) @ orEmpty (options f)))\<rparr>
                     else merged0);
          merged2 = (if required f = Some True then merged1\<lparr>required := Some True\<rparr> else merged1)
      in merged2)"

text \<open>
  The body of the loop over \<^verbatim>\<open>fields\<close>, on the \<^verbatim>\<open>Map\<close> built so far. A \<^verbatim>\<open>Map\<close> is
  an association list in insertion order; \<^verbatim>\<open>map.get\<close> is \<^const>\<open>map_of\<close> and
  \<^verbatim>\<open>map.set\<close> is \<^const>\<open>AList.update\<close> (a \<^verbatim>\<open>Map\<close> has no inherited keys).
\<close>

definition dedupeStep :: "(string \<times> FieldDef) list \<Rightarrow> FieldDef \<Rightarrow> (string \<times> FieldDef) list" where
  "dedupeStep m f =
     (let key = normalizeName (name f) in
      case map_of m key of
        None \<Rightarrow> AList.update key (cloneField f) m
      | Some existing \<Rightarrow> AList.update key (mergeField existing f) m)"

definition dedupeFields :: "FieldDef list \<Rightarrow> FieldDef list" where
  "dedupeFields fs = map snd (foldl dedupeStep [] fs)"

section \<open>api/api.ts\<close>

text \<open>
  The service is outside the program: a call of \<^verbatim>\<open>request\<close> either returns the body of
  the response or throws, an \<^verbatim>\<open>ApiError\<close> (message, status, url) when the response is not
  ok, and whatever \<^verbatim>\<open>fetch\<close> and \<^verbatim>\<open>res.json()\<close> throw. A rejected promise is \<^const>\<open>Inl\<close>
  of the error, a fulfilled one \<^const>\<open>Inr\<close> of its value.
\<close>

datatype error = ApiError string nat string | TypeError string | SyntaxError string

record SchemaMeta =
  version :: string

section \<open>stores/useFormStore.ts\<close>

text \<open>
  The data of the store; \<^verbatim>\<open>any\<close> is the type parameter. \<^verbatim>\<open>combinedFields\<close> is declared
  as an array, \<^term>\<open>Own fs\<close> here. It is assigned what a lookup in the cache
  returns, which can be a member of \<^verbatim>\<open>Object.prototype\<close>, \<^term>\<open>Inherited m\<close> here. The
  own properties of the cache are arrays.
\<close>

record 'v FormStoreState =
  allPdfs :: "string list"
  selectedPdfs :: "string list"
  combinedFields :: "FieldDef list property"
  fieldValues :: "(string \<times> 'v) list"
  schemaVersion :: "string option"
  isLoadingPdfs :: bool
  isLoadingFields :: bool
  isFilling :: bool
  fieldsCache :: "(string \<times> FieldDef list) list"

subsection \<open>selectionSignature\<close>

text \<open>
  \<^verbatim>\<open>[...pdfs].sort((a, b) => a.localeCompare(b)).join('||')\<close>. The collation of
  \<^verbatim>\<open>localeCompare\<close> is the host's: it is a parameter, \<open>localeCompare a b\<close> being negative,
  zero or positive. \<^verbatim>\<open>Array.prototype.sort\<close> is stable; the model is the insertion
  sort, which puts an element before the first element of the sorted rest that it does
  not follow.
\<close>

fun insertBy :: "('a \<Rightarrow> 'a \<Rightarrow> int) \<Rightarrow> 'a \<Rightarrow> 'a list \<Rightarrow> 'a list" where
  "insertBy cmp x [] = [x]"
| "insertBy cmp x (y # ys) = (if cmp x y \<le> 0 then x # y # ys else y # insertBy cmp x ys)"

definition sortBy :: "('a \<Rightarrow> 'a \<Rightarrow> int) \<Rightarrow> 'a list \<Rightarrow> 'a list" where
  "sortBy cmp xs = foldr (insertBy cmp) xs []"

fun join :: "string \<Rightarrow> string list \<Rightarrow> string" where
  "join sep [] = []"
| "join sep [x] = x"
| "join sep (x # y # ys) = x @ sep @ join sep (y # ys)"

definition selectionSignature :: "(string \<Rightarrow> string \<Rightarrow> int) \<Rightarrow> string list \<Rightarrow> string" where
  "selectionSignature localeCompare pdfs = join ''||'' (sortBy (\<lambda>a b. localeCompare a b) pdfs)"

subsection \<open>The actions\<close>

definition initialState :: "'v FormStoreState" where
  "initialState =
     \<lparr>allPdfs = [], selectedPdfs = [], combinedFields = Own [], fieldValues = [],
      schemaVersion = None, isLoadingPdfs = False, isLoadingFields = False, isFilling = False,
      fieldsCache = []\<rparr>"

text \<open>
  An action is run to completion before the next one starts. It returns whether its
  promise is fulfilled or rejected, the state of the store when it settles, and what
  it did to the cache and the service on the way: \<^verbatim>\<open>get().fieldsCache[sig]\<close> is a
  \<open>CacheRead\<close>, \<^verbatim>\<open>getCombinedFields(pdfs)\<close> a \<open>ServiceCall\<close> (with \<^const>\<open>True\<close> when the
  service answered and \<^const>\<open>False\<close> when it threw), and the \<^verbatim>\<open>set\<close> that stores
  \<^verbatim>\<open>[sig]: deduped\<close> a \<open>CacheWrite\<close>. The service is a parameter of the action that
  calls it, so that it may answer differently from one action to the next.
\<close>

datatype event = CacheRead string | ServiceCall "string list" bool | CacheWrite string

type_synonym 'v outcome = "(error + unit) \<times> 'v FormStoreState \<times> event list"

definition loadPdfs :: "(error + string list) \<Rightarrow> 'v FormStoreState \<Rightarrow> 'v outcome" where
  "loadPdfs listPdfs s =
     (let s1 = s\<lparr>isLoadingPdfs := True\<rparr> in
      case listPdfs of
        Inl err \<Rightarrow> (Inl err, s1\<lparr>isLoadingPdfs := False\<rparr>, [])
      | Inr pdfs \<Rightarrow> (Inr (), (s1\<lparr>allPdfs := pdfs\<rparr>)\<lparr>isLoadingPdfs := False\<rparr>, []))"

text \<open>The version of a \<^verbatim>\<open>SchemaMeta\<close> is a string, so \<^verbatim>\<open>String(schema.version)\<close> is not reached.\<close>

definition loadSchema :: "(error + SchemaMeta) \<Rightarrow> 'v FormStoreState \<Rightarrow> 'v outcome" where
  "loadSchema getSchema s =
     (case getSchema of
        Inl err \<Rightarrow> (Inl err, s, [])
      | Inr schema \<Rightarrow> (Inr (), s\<lparr>schemaVersion := Some (version schema)\<rparr>, []))"

text \<open>
  \<^verbatim>\<open>cached\<close> is what \<^verbatim>\<open>fieldsCache[sig]\<close> evaluates to in a plain object. An array is
  truthy also when it is empty, and so is every member of \<^verbatim>\<open>Object.prototype\<close>:
  \<^verbatim>\<open>if (cached)\<close> fails only for \<^verbatim>\<open>undefined\<close>. The \<^verbatim>\<open>finally\<close> block runs on both
  paths and lets the error through.
\<close>

definition fetchCombinedFields ::
    "(string \<Rightarrow> string \<Rightarrow> int) \<Rightarrow> (string list \<Rightarrow> error + CombinedFieldsResponse)
      \<Rightarrow> 'v FormStoreState \<Rightarrow> 'v outcome" where
  "fetchCombinedFields localeCompare getCombinedFields s =
     (let pdfs = selectedPdfs s;
          sig = selectionSignature localeCompare pdfs;
          cached = getProperty (fieldsCache s) sig
      in if cached \<noteq> Undefined then (Inr (), s\<lparr>combinedFields := cached\<rparr>, [CacheRead sig])
         else if length pdfs = 0 then (Inr (), s\<lparr>combinedFields := Own []\<rparr>, [CacheRead sig])
         else
           let s1 = s\<lparr>isLoadingFields := True\<rparr> in
           case getCombinedFields pdfs of
             Inl err \<Rightarrow>
               (Inl err, s1\<lparr>isLoadingFields := False\<rparr>, [CacheRead sig, ServiceCall pdfs False])
           | Inr res \<Rightarrow>
               let deduped = dedupeFields (fields_r res);
                   s2 = s1\<lparr>combinedFields := Own deduped,
                           fieldsCache := AList.update sig deduped (spread (fieldsCache s1))\<rparr>
               in (Inr (), s2\<lparr>isLoadingFields := False\<rparr>,
                   [CacheRead sig, ServiceCall pdfs True, CacheWrite sig]))"

definition setSelectedPdfs ::
    "(string \<Rightarrow> string \<Rightarrow> int) \<Rightarrow> string list \<Rightarrow> (string list \<Rightarrow> error + CombinedFieldsResponse)
      \<Rightarrow> 'v FormStoreState \<Rightarrow> 'v outcome" where
  "setSelectedPdfs localeCompare pdfs getCombinedFields s =
     fetchCombinedFields localeCompare getCombinedFields (s\<lparr>selectedPdfs := pdfs\<rparr>)"

definition updateFieldValue :: "string \<Rightarrow> 'v \<Rightarrow> 'v FormStoreState \<Rightarrow> 'v FormStoreState" where
  "updateFieldValue nm v s = s\<lparr>fieldValues := AList.update nm v (spread (fieldValues s))\<rparr>"

definition reset :: "'v FormStoreState \<Rightarrow> 'v FormStoreState" where
  "reset s =
     s\<lparr>allPdfs := [], selectedPdfs := [], combinedFields := Own [], fieldValues := [],
       schemaVersion := None, isLoadingPdfs := False, isLoadingFields := False,
       isFilling := False, fieldsCache := []\<rparr>"

subsection \<open>Sequences of calls\<close>

text \<open>
  A call of an action by the user interface, with the behaviour of the service during
  that call. The calls of a sequence run one after the other from the initial state; a
  rejected call leaves the store as it is and the next call starts there. The log of a
  run is the concatenation of the logs of its calls.
\<close>

datatype 'v call =
    LoadPdfs "error + string list"
  | LoadSchema "error + SchemaMeta"
  | SetSelectedPdfs "string list" "string list \<Rightarrow> error + CombinedFieldsResponse"
  | FetchCombinedFields "string list \<Rightarrow> error + CombinedFieldsResponse"
  | UpdateFieldValue string 'v
  | Reset

fun perform :: "(string \<Rightarrow> string \<Rightarrow> int) \<Rightarrow> 'v call \<Rightarrow> 'v FormStoreState \<Rightarrow> 'v outcome" where
  "perform localeCompare (LoadPdfs listPdfs) s = loadPdfs listPdfs s"
| "perform localeCompare (LoadSchema getSchema) s = loadSchema getSchema s"
| "perform localeCompare (SetSelectedPdfs pdfs getCombinedFields) s =
     setSelectedPdfs localeCompare pdfs getCombinedFields s"
| "perform localeCompare (FetchCombinedFields getCombinedFields) s =
     fetchCombinedFields localeCompare getCombinedFields s"
| "perform localeCompare (UpdateFieldValue nm v) s = (Inr (), updateFieldValue nm v s, [])"
| "perform localeCompare Reset s = (Inr (), reset s, [])"

definition after ::
    "(string \<Rightarrow> string \<Rightarrow> int) \<Rightarrow> 'v FormStoreState \<times> event list \<Rightarrow> 'v call
      \<Rightarrow> 'v FormStoreState \<times> event list" where
  "after localeCompare sl c =
     (case sl of (s, log) \<Rightarrow>
        (case perform localeCompare c s of (r, s', evs) \<Rightarrow> (s', log @ evs)))"

definition run :: "(string \<Rightarrow> string \<Rightarrow> int) \<Rightarrow> 'v call list \<Rightarrow> 'v FormStoreState \<times> event list" where
  "run localeCompare cs = foldl (after localeCompare) (initialState, []) cs"

section \<open>Notions used to state the properties\<close>

text \<open>The merge key of a descriptor.\<close>

definition fieldKey :: "FieldDef \<Rightarrow> string" where
  "fieldKey f = normalizeName (name f)"

text \<open>
  The elements of a list in the order of their first occurrence, each once
  (\<^const>\<open>remdups\<close> keeps the last occurrence of each element).
\<close>

definition firstOccurrences :: "'a list \<Rightarrow> 'a list" where
  "firstOccurrences xs = rev (remdups (rev xs))"

text \<open>What the loop does to the entry of a key when it meets a descriptor with that key.\<close>

definition absorb :: "FieldDef option \<Rightarrow> FieldDef \<Rightarrow> FieldDef option" where
  "absorb eo f = Some (case eo of None \<Rightarrow> cloneField f | Some e \<Rightarrow> mergeField e f)"

text \<open>The descriptors of the input that contribute to the entry \<open>e\<close> of the output.\<close>

definition contributors :: "FieldDef \<Rightarrow> FieldDef list \<Rightarrow> FieldDef list" where
  "contributors e fs = filter (\<lambda>x. fieldKey x = fieldKey e) fs"

definition optionsOf :: "FieldDef \<Rightarrow> string list" where
  "optionsOf f = orEmpty (options f)"

text \<open>
  What an occurrences mapping holds for a document, its documents, and the count of a
  document as an integer, 0 when the document is absent.
\<close>

definition valueAt :: "(PdfName \<times> jsvalue) list option \<Rightarrow> PdfName \<Rightarrow> jsvalue option" where
  "valueAt oc pdf = (case oc of None \<Rightarrow> None | Some es \<Rightarrow> map_of es pdf)"

definition docsOf :: "(PdfName \<times> jsvalue) list option \<Rightarrow> PdfName set" where
  "docsOf oc = (case oc of None \<Rightarrow> {} | Some es \<Rightarrow> fst ` set es)"

definition num :: "int \<Rightarrow> jsvalue" where
  "num c = Num (Finite c)"

fun intOf :: "jsvalue \<Rightarrow> int" where
  "intOf (Num (Finite c)) = c"
| "intOf _ = 0"

definition countOf :: "(PdfName \<times> jsvalue) list option \<Rightarrow> PdfName \<Rightarrow> int" where
  "countOf oc pdf = (case valueAt oc pdf of None \<Rightarrow> 0 | Some v \<Rightarrow> intOf v)"

text \<open>An occurrences mapping is an object: no document occurs twice among its keys.\<close>

definition wfOcc :: "(PdfName \<times> jsvalue) list option \<Rightarrow> bool" where
  "wfOcc oc = (case oc of None \<Rightarrow> True | Some es \<Rightarrow> distinct (map fst es))"

text \<open>
  A count as a service sends it, an integer that is not negative, and a mapping that
  holds nothing else for a document.
\<close>

fun isCount :: "jsvalue \<Rightarrow> bool" where
  "isCount (Num (Finite c)) = (0 \<le> c)"
| "isCount _ = False"

text \<open>The left operand of \<^verbatim>\<open>+\<close> in \<^const>\<open>addCount\<close>, for an ordinary document.\<close>

definition orZero :: "jsvalue option \<Rightarrow> jsvalue" where
  "orZero v = (case v of None \<Rightarrow> Num (Finite 0) | Some x \<Rightarrow> x)"

definition countAt :: "(PdfName \<times> jsvalue) list option \<Rightarrow> PdfName \<Rightarrow> bool" where
  "countAt oc pdf = (case valueAt oc pdf of None \<Rightarrow> True | Some v \<Rightarrow> isCount v)"

definition normalForm :: "FieldDef \<Rightarrow> bool" where
  "normalForm e \<longleftrightarrow>
     (case options e of None \<Rightarrow> True | Some os \<Rightarrow> distinct os) \<and> wfOcc (occurrences e)"

text \<open>
  A comparator orders the elements of a list linearly: any two of them are comparable,
  the comparison is transitive on them, and two of them that compare as 0 both ways are
  the same. \<^verbatim>\<open>localeCompare\<close> is a consistent comparator, total and transitive on all
  strings; it orders a list linearly when no two different strings of the list compare
  as 0.
\<close>

definition linearOn :: "('a \<Rightarrow> 'a \<Rightarrow> int) \<Rightarrow> 'a list \<Rightarrow> bool" where
  "linearOn cmp xs \<longleftrightarrow>
     (\<forall>a\<in>set xs. \<forall>b\<in>set xs. cmp a b \<le> 0 \<or> cmp b a \<le> 0) \<and>
     (\<forall>a\<in>set xs. \<forall>b\<in>set xs. \<forall>c\<in>set xs. cmp a b \<le> 0 \<and> cmp b c \<le> 0 \<longrightarrow> cmp a c \<le> 0) \<and>
     (\<forall>a\<in>set xs. \<forall>b\<in>set xs. cmp a b \<le> 0 \<and> cmp b a \<le> 0 \<longrightarrow> a = b)"

text \<open>The calls of the service in a log that were made, and answered, for a signature.\<close>

fun invokedFor :: "(string \<Rightarrow> string \<Rightarrow> int) \<Rightarrow> string \<Rightarrow> event \<Rightarrow> bool" where
  "invokedFor cmp sig (ServiceCall pdfs ok) = (selectionSignature cmp pdfs = sig)"
| "invokedFor cmp sig _ = False"

fun answeredFor :: "(string \<Rightarrow> string \<Rightarrow> int) \<Rightarrow> string \<Rightarrow> event \<Rightarrow> bool" where
  "answeredFor cmp sig (ServiceCall pdfs ok) = (ok \<and> selectionSignature cmp pdfs = sig)"
| "answeredFor cmp sig _ = False"

text \<open>A list of descriptors that is an output of \<^const>\<open>dedupeFields\<close>.\<close>

definition deduped :: "FieldDef list \<Rightarrow> bool" where
  "deduped v \<longleftrightarrow> (\<exists>fs. v = dedupeFields fs)"

text \<open>
  The two ways in which a call other than \<open>Reset\<close> leaves the cache: as it was, the
  service not having answered, or with one more entry, for a signature it did not have,
  that holds an output of \<^const>\<open>dedupeFields\<close>. In the first, the combined fields are
  those of before, or empty, or a list of the cache, or a member of
  \<^verbatim>\<open>Object.prototype\<close>.
\<close>

definition cacheKept ::
    "(string \<Rightarrow> string \<Rightarrow> int) \<Rightarrow> 'v FormStoreState \<Rightarrow> 'v FormStoreState \<Rightarrow> event list \<Rightarrow> bool" where
  "cacheKept cmp s s' evs \<longleftrightarrow>
     fieldsCache s' = fieldsCache s \<and> (\<forall>sig. filter (answeredFor cmp sig) evs = []) \<and>
     (combinedFields s' = combinedFields s \<or> combinedFields s' = Own [] \<or>
      combinedFields s' \<in> Own ` snd ` set (fieldsCache s) \<or>
      combinedFields s' \<in> Inherited ` set objectPrototypeMembers)"

definition cacheExtended ::
    "(string \<Rightarrow> string \<Rightarrow> int) \<Rightarrow> 'v FormStoreState \<Rightarrow> 'v FormStoreState \<Rightarrow> event list \<Rightarrow> bool" where
  "cacheExtended cmp s s' evs \<longleftrightarrow>
     (\<exists>pdfs fs. map_of (fieldsCache s) (selectionSignature cmp pdfs) = None \<and>
        fieldsCache s' = fieldsCache s @ [(selectionSignature cmp pdfs, dedupeFields fs)] \<and>
        combinedFields s' = Own (dedupeFields fs) \<and>
        evs = [CacheRead (selectionSignature cmp pdfs), ServiceCall pdfs True,
               CacheWrite (selectionSignature cmp pdfs)])"

text \<open>The combined fields are an array, and an output of \<^const>\<open>dedupeFields\<close>.\<close>

fun dedupedValue :: "FieldDef list property \<Rightarrow> bool" where
  "dedupedValue (Own v) = deduped v"
| "dedupedValue _ = False"

subsection \<open>Example inputs\<close>

text \<open>A descriptor with a name and a kind and no optional property.\<close>

definition field :: "string \<Rightarrow> FieldKind \<Rightarrow> FieldDef" where
  "field nm k = \<lparr>name = nm, kind = k, required = None, options = None, occurrences = None\<rparr>"

text \<open>The inputs of the two tests of \<^verbatim>\<open>dedupeFields.test.ts\<close>, and a list with three keys.\<close>

definition exampleNames :: "FieldDef list" where
  "exampleNames =
     [(field ''Name'' Text)\<lparr>required := Some True, occurrences := Some [(''a.pdf'', num 1)]\<rparr>,
      (field ''name'' Text)\<lparr>occurrences := Some [(''a.pdf'', num 2), (''b.pdf'', num 1)]\<rparr>,
      (field ''NAME'' Text)\<lparr>occurrences := Some [(''b.pdf'', num 3)]\<rparr>]"

definition exampleCountries :: "FieldDef list" where
  "exampleCountries =
     [(field ''Country'' Text)\<lparr>options := Some [''US'', ''CA'']\<rparr>,
      (field ''country'' Text)\<lparr>options := Some [''CA'', ''MX'']\<rparr>]"

definition exampleMixed :: "FieldDef list" where
  "exampleMixed =
     [field ''Zip'' Number, field ''Name'' Text, field '' zip '' Text, field ''Age'' Number,
      field ''NAME'' Date]"

text \<open>
  Two descriptors of one field that occurs in a document named \<^verbatim>\<open>constructor\<close>, and
  two of one field whose counts add up to \<open>2^53 + 1\<close>.
\<close>

definition exampleConstructor :: "FieldDef list" where
  "exampleConstructor =
     [(field ''Total'' Text)\<lparr>occurrences := Some [(''constructor'', num 1)]\<rparr>,
      (field ''total'' Text)\<lparr>occurrences := Some [(''constructor'', num 2)]\<rparr>]"

definition exampleLarge :: "FieldDef list" where
  "exampleLarge =
     [(field ''Total'' Text)\<lparr>occurrences := Some [(''a.pdf'', num 9007199254740992)]\<rparr>,
      (field ''total'' Text)\<lparr>occurrences := Some [(''a.pdf'', num 1)]\<rparr>]"

text \<open>
  Two collations: the order of the character codes, and that order on what is left of
  the strings when the control characters are taken out, as a collation that ignores
  these characters compares.
\<close>

definition codeUnitCompare :: "string \<Rightarrow> string \<Rightarrow> int" where
  "codeUnitCompare a b = (if a < b then - 1 else if a = b then 0 else 1)"

definition ignoringControls :: "string \<Rightarrow> string \<Rightarrow> int" where
  "ignoringControls a b =
     codeUnitCompare (filter (\<lambda>c. 32 \<le> (of_char c :: nat)) a)
       (filter (\<lambda>c. 32 \<le> (of_char c :: nat)) b)"

text \<open>
  Three behaviours of the service: it answers with one field, it answers with the
  fields of the first test, it fails with a 404.
\<close>

definition answerX :: "string list \<Rightarrow> error + CombinedFieldsResponse" where
  "answerX pdfs = Inr \<lparr>fields_r = [field ''X'' Text], notes_r = None\<rparr>"

definition answerNames :: "string list \<Rightarrow> error + CombinedFieldsResponse" where
  "answerNames pdfs = Inr \<lparr>fields_r = exampleNames, notes_r = None\<rparr>"

definition notFound :: "string list \<Rightarrow> error + CombinedFieldsResponse" where
  "notFound pdfs = Inl (ApiError ''Request failed: Not Found'' 404 ''/api/combined_fields'')"

text \<open>
  Four runs: a selection is fetched and another one fails; a document whose name is
  the empty string is selected and fetched; a selection fails twice; a document named
  \<^verbatim>\<open>constructor\<close> is selected.
\<close>

definition exampleCalls :: "unit call list" where
  "exampleCalls =
     [SetSelectedPdfs [''b.pdf'', ''a.pdf''] answerNames, SetSelectedPdfs [''c.pdf''] notFound]"

definition emptyNameCalls :: "unit call list" where
  "emptyNameCalls = [SetSelectedPdfs [''''] answerX]"

definition failingCalls :: "unit call list" where
  "failingCalls = [SetSelectedPdfs [''a.pdf''] notFound, SetSelectedPdfs [''a.pdf''] notFound]"

definition constructorCalls :: "unit call list" where
  "constructorCalls = [SetSelectedPdfs [''constructor''] answerX]"

section \<open>Properties of the deduplicator\<close>

lemma firstOccurrences_snoc:
  "firstOccurrences (xs @ [x]) = (if x \<in> set xs then firstOccurrences xs else firstOccurrences xs @ [x])"
  by (simp add: firstOccurrences_def)

lemma set_firstOccurrences [simp]: "set (firstOccurrences xs) = set xs"
  by (simp add: firstOccurrences_def)

lemma distinct_firstOccurrences [simp]: "distinct (firstOccurrences xs)"
  by (simp add: firstOccurrences_def)

lemma firstOccurrences_distinct: "distinct xs \<Longrightarrow> firstOccurrences xs = xs"
  by (simp add: firstOccurrences_def distinct_remdups_id)

lemma foldl_setAdd: "distinct acc \<Longrightarrow> foldl setAdd acc xs = firstOccurrences (acc @ xs)"
proof (induction xs rule: rev_induct)
  case Nil
  then show ?case by (simp add: firstOccurrences_distinct)
next
  case (snoc x xs)
  have "firstOccurrences (acc @ xs @ [x]) = firstOccurrences ((acc @ xs) @ [x])" by simp
  also have "\<dots> = setAdd (firstOccurrences (acc @ xs)) x"
    unfolding firstOccurrences_snoc by (simp add: setAdd_def)
  finally show ?case using snoc by simp
qed

lemma newSet_firstOccurrences: "newSet xs = firstOccurrences xs"
  by (simp add: newSet_def foldl_setAdd)

lemma newSet_newSet_append: "newSet (newSet xs @ ys) = newSet (xs @ ys)"
proof -
  have "newSet (newSet xs @ ys) = foldl setAdd (foldl setAdd [] (newSet xs)) ys"
    by (simp add: newSet_def)
  also have "foldl setAdd [] (newSet xs) = newSet xs"
    by (simp add: foldl_setAdd newSet_firstOccurrences firstOccurrences_distinct)
  finally show ?thesis by (simp add: newSet_def)
qed

lemma keys_dedupeStep:
  "map fst (dedupeStep m f) =
     (if fieldKey f \<in> set (map fst m) then map fst m else map fst m @ [fieldKey f])"
  by (simp add: dedupeStep_def fieldKey_def Let_def update_keys split: option.splits)

lemma keys_dedupeLoop:
  "distinct (map fst m) \<Longrightarrow>
     map fst (foldl dedupeStep m fs) = firstOccurrences (map fst m @ map fieldKey fs)"
proof (induction fs rule: rev_induct)
  case Nil
  then show ?case by (simp add: firstOccurrences_distinct)
next
  case (snoc f fs)
  have "firstOccurrences (map fst m @ map fieldKey (fs @ [f]))
          = firstOccurrences ((map fst m @ map fieldKey fs) @ [fieldKey f])" by simp
  also have "\<dots> = map fst (dedupeStep (foldl dedupeStep m fs) f)"
    unfolding firstOccurrences_snoc keys_dedupeStep using snoc by simp
  finally show ?case by simp
qed

lemma lookup_dedupeStep:
  "map_of (dedupeStep m f) k = (if fieldKey f = k then absorb (map_of m k) f else map_of m k)"
  by (simp add: dedupeStep_def fieldKey_def absorb_def Let_def update_conv' split: option.splits)

lemma lookup_dedupeLoop:
  "map_of (foldl dedupeStep m fs) k = foldl absorb (map_of m k) (filter (\<lambda>f. fieldKey f = k) fs)"
  by (induction fs arbitrary: m) (simp_all add: lookup_dedupeStep)

lemma name_cloneField [simp]: "name (cloneField f) = name f"
  by (simp add: cloneField_def)

lemma kind_cloneField [simp]: "kind (cloneField f) = kind f"
  by (simp add: cloneField_def)

lemma required_cloneField [simp]: "required (cloneField f) = required f"
  by (simp add: cloneField_def)

lemma name_mergeField [simp]: "name (mergeField e f) = name e"
  by (simp add: mergeField_def Let_def)

lemma kind_mergeField [simp]: "kind (mergeField e f) = kind e"
  by (simp add: mergeField_def Let_def)

lemma fieldKey_cloneField [simp]: "fieldKey (cloneField f) = fieldKey f"
  by (simp add: fieldKey_def)

lemma fieldKey_mergeField [simp]: "fieldKey (mergeField e f) = fieldKey e"
  by (simp add: fieldKey_def)

lemma foldl_absorb_Some: "foldl absorb (Some e) fs = Some (foldl mergeField e fs)"
  by (induction fs arbitrary: e) (simp_all add: absorb_def)

lemma foldl_absorb_None:
  "foldl absorb None fs = (case fs of [] \<Rightarrow> None | f # rest \<Rightarrow> Some (foldl mergeField (cloneField f) rest))"
  by (cases fs) (simp_all add: absorb_def foldl_absorb_Some)

lemma name_foldl_mergeField [simp]: "name (foldl mergeField e fs) = name e"
  by (induction fs arbitrary: e) simp_all

lemma kind_foldl_mergeField [simp]: "kind (foldl mergeField e fs) = kind e"
  by (induction fs arbitrary: e) simp_all

lemma fieldKey_foldl_mergeField [simp]: "fieldKey (foldl mergeField e fs) = fieldKey e"
  by (induction fs arbitrary: e) simp_all

lemma distinct_keys_dedupeLoop: "distinct (map fst (foldl dedupeStep [] fs))"
  by (simp add: keys_dedupeLoop)

lemma entry_dedupeLoop:
  assumes "(k, e) \<in> set (foldl dedupeStep [] fs)"
  shows "\<exists>f rest. filter (\<lambda>x. fieldKey x = k) fs = f # rest \<and> e = foldl mergeField (cloneField f) rest"
proof -
  have "map_of (foldl dedupeStep [] fs) k = Some e"
    using assms distinct_keys_dedupeLoop by simp
  then have "foldl absorb None (filter (\<lambda>x. fieldKey x = k) fs) = Some e"
    by (simp add: lookup_dedupeLoop)
  then show ?thesis
    by (auto simp: foldl_absorb_None split: list.splits)
qed

lemma key_entry_dedupeLoop:
  assumes "(k, e) \<in> set (foldl dedupeStep [] fs)"
  shows "fieldKey e = k"
proof -
  obtain f rest where g: "filter (\<lambda>x. fieldKey x = k) fs = f # rest"
    and e: "e = foldl mergeField (cloneField f) rest"
    using entry_dedupeLoop [OF assms] by blast
  have "f \<in> set (filter (\<lambda>x. fieldKey x = k) fs)" using g by simp
  then have "fieldKey f = k" by simp
  then show ?thesis using e by simp
qed

lemma keys_dedupeFields: "map fieldKey (dedupeFields fs) = firstOccurrences (map fieldKey fs)"
proof -
  have "map fieldKey (map snd (foldl dedupeStep [] fs)) = map fst (foldl dedupeStep [] fs)"
    using key_entry_dedupeLoop [of _ _ fs] by (auto simp: map_eq_conv)
  then show ?thesis by (simp add: dedupeFields_def keys_dedupeLoop)
qed

lemma entry_dedupeFields:
  assumes "e \<in> set (dedupeFields fs)"
  shows "\<exists>f rest. filter (\<lambda>x. fieldKey x = fieldKey e) fs = f # rest
            \<and> e = foldl mergeField (cloneField f) rest"
proof -
  obtain k where k: "(k, e) \<in> set (foldl dedupeStep [] fs)"
    using assms by (auto simp: dedupeFields_def)
  then have "fieldKey e = k" by (rule key_entry_dedupeLoop)
  then show ?thesis using entry_dedupeLoop [OF k] by simp
qed

lemma dedupeFields_group:
  "dedupeFields fs =
     map (\<lambda>k. the (foldl absorb None (filter (\<lambda>x. fieldKey x = k) fs))) (firstOccurrences (map fieldKey fs))"
proof -
  let ?r = "foldl dedupeStep [] fs"
  have "map snd ?r = map (\<lambda>k. the (map_of ?r k)) (map fst ?r)"
    using distinct_keys_dedupeLoop [of fs] by (auto simp: map_eq_conv)
  then show ?thesis
    by (simp add: dedupeFields_def keys_dedupeLoop lookup_dedupeLoop)
qed

lemma options_cloneField:
  "options (cloneField f) = (case options f of None \<Rightarrow> None | Some os \<Rightarrow> Some (newSet os))"
  by (simp add: cloneField_def)

lemma options_mergeField:
  "options (mergeField e f) =
     (if options e = None \<and> options f = None then None
      else Some (newSet (optionsOf e @ optionsOf f)))"
  by (simp add: mergeField_def Let_def optionsOf_def)

lemma options_foldl_mergeField:
  "options (foldl mergeField e fs) =
     (if fs = [] then options e
      else if options e = None \<and> (\<forall>f\<in>set fs. options f = None) then None
      else Some (newSet (optionsOf e @ concat (map optionsOf fs))))"
proof (induction fs arbitrary: e)
  case Nil
  show ?case by simp
next
  case (Cons f fs)
  show ?case
  proof (cases "fs = []")
    case True
    then show ?thesis by (simp add: options_mergeField)
  next
    case False
    have *: "newSet (optionsOf (mergeField e f) @ ys) = newSet (optionsOf e @ optionsOf f @ ys)" for ys
    proof (cases "options e = None \<and> options f = None")
      case True
      then show ?thesis by (simp add: optionsOf_def options_mergeField orEmpty_def)
    next
      case False
      then have "options (mergeField e f) = Some (newSet (optionsOf e @ optionsOf f))"
        by (auto simp: options_mergeField)
      then have "optionsOf (mergeField e f) = newSet (optionsOf e @ optionsOf f)"
        by (simp add: optionsOf_def [of "mergeField e f"] orEmpty_def)
      then show ?thesis using newSet_newSet_append [of "optionsOf e @ optionsOf f" ys] by simp
    qed
    show ?thesis
      using False by (simp add: Cons.IH * ) (auto simp: options_mergeField)
  qed
qed

lemma options_group:
  "options (foldl mergeField (cloneField f) rest) =
     (if \<forall>x\<in>set (f # rest). options x = None then None
      else Some (firstOccurrences (concat (map optionsOf (f # rest)))))"
proof -
  have c: "newSet (optionsOf (cloneField f) @ ys) = newSet (optionsOf f @ ys)" for ys
    using newSet_newSet_append [of "optionsOf f" ys]
    by (cases "options f") (simp_all add: optionsOf_def orEmpty_def options_cloneField)
  have c': "firstOccurrences (optionsOf (cloneField f) @ ys) = firstOccurrences (optionsOf f @ ys)" for ys
    using c [of ys] by (simp add: newSet_firstOccurrences)
  show ?thesis
  proof (cases "rest = []")
    case True
    then show ?thesis
      by (cases "options f")
         (simp_all add: options_cloneField optionsOf_def orEmpty_def newSet_firstOccurrences)
  next
    case False
    then show ?thesis
      by (simp add: options_foldl_mergeField newSet_firstOccurrences c')
         (auto simp: options_cloneField split: option.splits)
  qed
qed

subsection \<open>occurrences\<close>

lemma update_fresh: "k \<notin> fst ` set al \<Longrightarrow> AList.update k v al = al @ [(k, v)]"
  by (induction al) auto

lemma foldl_update_distinct:
  "distinct (map fst (acc @ es)) \<Longrightarrow>
     foldl (\<lambda>out e. AList.update (fst e) (snd e) out) acc es = acc @ es"
proof (induction es arbitrary: acc)
  case Nil
  show ?case by simp
next
  case (Cons p es)
  have "AList.update (fst p) (snd p) acc = acc @ [p]"
    using Cons.prems by (simp add: update_fresh)
  moreover have "distinct (map fst ((acc @ [p]) @ es))" using Cons.prems by simp
  ultimately show ?case using Cons.IH [of "acc @ [p]"] by simp
qed

lemma spread_distinct: "distinct (map fst es) \<Longrightarrow> spread es = es"
  using foldl_update_distinct [of "[]" es] by (simp add: spread_def)

lemma distinct_foldl_update:
  "distinct (map fst acc) \<Longrightarrow>
     distinct (map fst (foldl (\<lambda>out e. AList.update (fst e) (snd e) out) acc es))"
  by (induction es arbitrary: acc) (simp_all add: distinct_update)

lemma distinct_spread: "distinct (map fst (spread es))"
  by (simp add: spread_def distinct_foldl_update)

lemma occurrences_cloneField:
  "occurrences (cloneField f) = (case occurrences f of None \<Rightarrow> None | Some oc \<Rightarrow> Some (spread oc))"
  by (simp add: cloneField_def)

lemma occurrences_mergeField:
  "occurrences (mergeField e f) = mergeOccurrences (occurrences e) (occurrences f)"
  by (simp add: mergeField_def Let_def)

lemma distinct_setProperty:
  "distinct (map fst obj) \<Longrightarrow> distinct (map fst (setProperty obj k v))"
  by (simp add: setProperty_def distinct_update)

lemma distinct_addCount: "distinct (map fst out) \<Longrightarrow> distinct (map fst (addCount out p))"
  by (cases p) (simp add: addCount_def distinct_setProperty)

lemma distinct_foldl_addCount:
  "distinct (map fst out) \<Longrightarrow> distinct (map fst (foldl addCount out es))"
  by (induction es arbitrary: out) (simp_all add: distinct_addCount)

lemma mergeOccurrences_None [simp]: "mergeOccurrences a b = None \<longleftrightarrow> a = None \<and> b = None"
  by (simp add: mergeOccurrences_def Let_def)

lemma wfOcc_mergeOccurrences [simp]: "wfOcc (mergeOccurrences a b)"
  by (auto simp: mergeOccurrences_def wfOcc_def Let_def distinct_foldl_addCount split: option.splits)

lemma wfOcc_cloneField [simp]: "wfOcc (occurrences (cloneField f))"
  by (simp add: occurrences_cloneField wfOcc_def distinct_spread split: option.splits)

lemma wfOcc_foldl_mergeField:
  "wfOcc (occurrences e) \<Longrightarrow> wfOcc (occurrences (foldl mergeField e fs))"
  by (induction fs arbitrary: e) (simp_all add: occurrences_mergeField)

lemma occurrences_foldl_mergeField_None:
  "occurrences (foldl mergeField e fs) = None \<longleftrightarrow>
     occurrences e = None \<and> (\<forall>f\<in>set fs. occurrences f = None)"
  by (induction fs arbitrary: e) (auto simp: occurrences_mergeField)

lemma occurrences_cloneField_wf:
  "wfOcc (occurrences f) \<Longrightarrow> occurrences (cloneField f) = occurrences f"
  by (simp add: occurrences_cloneField wfOcc_def spread_distinct split: option.splits)

text \<open>
  The value that \<^const>\<open>addCount\<close> stores for a document whose name is not that of a
  member of \<^verbatim>\<open>Object.prototype\<close>, and the values it leaves as they are.
\<close>

lemma proto_member: "''__proto__'' \<in> set objectPrototypeMembers"
  by (simp add: objectPrototypeMembers_def)

lemma lookup_addCount_same:
  assumes "pdf \<notin> set objectPrototypeMembers"
  shows "map_of (addCount out (pdf, c)) pdf = Some (plusValue (orZero (map_of out pdf)) c)"
proof -
  have "pdf \<noteq> ''__proto__''" using assms proto_member by auto
  then show ?thesis
    using assms
    by (cases "map_of out pdf")
       (simp_all add: addCount_def setProperty_def getProperty_def orZero_def update_conv')
qed

lemma lookup_addCount_other:
  assumes "d \<noteq> pdf"
  shows "map_of (addCount out (d, c)) pdf = map_of out pdf"
  using assms by (simp add: addCount_def setProperty_def update_conv')

lemma lookup_foldl_addCount:
  assumes "distinct (map fst es)" and "pdf \<notin> set objectPrototypeMembers"
  shows "map_of (foldl addCount out es) pdf =
       (case map_of es pdf of None \<Rightarrow> map_of out pdf
        | Some c \<Rightarrow> Some (plusValue (orZero (map_of out pdf)) c))"
  using assms(1)
proof (induction es arbitrary: out)
  case Nil
  show ?case by simp
next
  case (Cons p es)
  obtain d c where p: "p = (d, c)" by (cases p)
  have notin: "map_of es d = None"
    using Cons.prems p by (simp add: map_of_eq_None_iff)
  have "distinct (map fst es)" using Cons.prems by simp
  note IH = Cons.IH [OF this, of "addCount out (d, c)"]
  show ?case
  proof (cases "d = pdf")
    case True
    then show ?thesis
      using IH notin p lookup_addCount_same [OF assms(2), of out c] by simp
  next
    case False
    then show ?thesis
      using IH p lookup_addCount_other [OF False, of out c] by (simp split: option.splits)
  qed
qed

lemma valueAt_mergeOccurrences:
  assumes "wfOcc a" and "wfOcc b" and "pdf \<notin> set objectPrototypeMembers"
  shows "valueAt (mergeOccurrences a b) pdf =
       (case valueAt a pdf of
          None \<Rightarrow> (case valueAt b pdf of None \<Rightarrow> None
                    | Some y \<Rightarrow> Some (plusValue (Num (Finite 0)) y))
        | Some x \<Rightarrow> (case valueAt b pdf of None \<Rightarrow> Some (plusValue (Num (Finite 0)) x)
                    | Some y \<Rightarrow> Some (plusValue (plusValue (Num (Finite 0)) x) y)))"
proof (cases a)
  case None
  note a = this
  show ?thesis
  proof (cases b)
    case None
    then show ?thesis using a by (simp add: valueAt_def mergeOccurrences_def)
  next
    case (Some eb)
    then show ?thesis
      using a assms
      by (simp add: valueAt_def mergeOccurrences_def wfOcc_def lookup_foldl_addCount orZero_def
          split: option.splits)
  qed
next
  case (Some ea)
  note a = this
  show ?thesis
  proof (cases b)
    case None
    then show ?thesis
      using a assms
      by (simp add: valueAt_def mergeOccurrences_def wfOcc_def lookup_foldl_addCount orZero_def
          split: option.splits)
  next
    case (Some eb)
    then show ?thesis
      using a assms
      by (simp add: valueAt_def mergeOccurrences_def wfOcc_def lookup_foldl_addCount orZero_def
          split: option.splits)
  qed
qed

lemma roundDouble_safe: "\<bar>n\<bar> < 2 ^ 53 \<Longrightarrow> roundDouble n = Finite n"
  by (simp add: roundDouble_def)

lemma isCount_num: "isCount v \<Longrightarrow> v = num (intOf v) \<and> 0 \<le> intOf v"
  by (cases v rule: isCount.cases) (simp_all add: num_def)

lemma plusValue_counts:
  assumes "isCount x" and "isCount y" and "intOf x + intOf y < 2 ^ 53"
  shows "plusValue x y = num (intOf x + intOf y)"
proof -
  obtain a b where x: "x = Num (Finite a)" "0 \<le> a" and y: "y = Num (Finite b)" "0 \<le> b"
    using isCount_num [OF assms(1)] isCount_num [OF assms(2)] by (auto simp: num_def)
  have "\<bar>a + b\<bar> < 2 ^ 53" using assms(3) x y by simp
  then show ?thesis using x y by (simp add: roundDouble_safe num_def)
qed

lemma plusValue_zero_count:
  assumes "isCount y" and "intOf y < 2 ^ 53"
  shows "plusValue (Num (Finite 0)) y = y"
proof -
  have "isCount (Num (Finite 0))" by simp
  then have "plusValue (Num (Finite 0)) y = num (intOf (Num (Finite 0)) + intOf y)"
    using assms by (intro plusValue_counts) simp_all
  then show ?thesis using isCount_num [OF assms(1)] by simp
qed

lemma countOf_nonneg: "countAt oc pdf \<Longrightarrow> 0 \<le> countOf oc pdf"
  by (auto simp: countAt_def countOf_def dest: isCount_num split: option.splits)

lemma valueAt_count:
  "countAt oc pdf \<Longrightarrow> valueAt oc pdf = Some v \<Longrightarrow> v = num (countOf oc pdf)"
  by (auto simp: countAt_def countOf_def dest: isCount_num)

lemma valueAt_mergeOccurrences_counts:
  assumes "wfOcc a" and "wfOcc b" and "pdf \<notin> set objectPrototypeMembers"
    and "countAt a pdf" and "countAt b pdf" and "countOf a pdf + countOf b pdf < 2 ^ 53"
  shows "valueAt (mergeOccurrences a b) pdf =
       (if valueAt a pdf = None \<and> valueAt b pdf = None then None
        else Some (num (countOf a pdf + countOf b pdf)))"
proof -
  note m = valueAt_mergeOccurrences [OF assms(1-3)]
  have na: "0 \<le> countOf a pdf" and nb: "0 \<le> countOf b pdf"
    using assms(4,5) by (simp_all add: countOf_nonneg)
  show ?thesis
  proof (cases "valueAt a pdf")
    case None
    note a = this
    show ?thesis
    proof (cases "valueAt b pdf")
      case None
      then show ?thesis using a m by simp
    next
      case (Some y)
      have y: "isCount y" "intOf y = countOf b pdf"
        using assms(5) Some by (simp_all add: countAt_def countOf_def)
      have "countOf a pdf = 0" using a by (simp add: countOf_def)
      then have "intOf y < 2 ^ 53" using assms(6) y by simp
      then have "plusValue (Num (Finite 0)) y = num (countOf b pdf)"
        using plusValue_zero_count [OF y(1)] isCount_num [OF y(1)] y(2) by simp
      then show ?thesis using a Some m \<open>countOf a pdf = 0\<close> by simp
    qed
  next
    case (Some x)
    have x: "isCount x" "intOf x = countOf a pdf"
      using assms(4) Some by (simp_all add: countAt_def countOf_def)
    have xs: "intOf x < 2 ^ 53" using assms(6) nb x by simp
    have px: "plusValue (Num (Finite 0)) x = x"
      using plusValue_zero_count [OF x(1) xs] .
    show ?thesis
    proof (cases "valueAt b pdf")
      case None
      then have "countOf b pdf = 0" by (simp add: countOf_def)
      then show ?thesis
        using Some None m px isCount_num [OF x(1)] x(2) by simp
    next
      case (Some y)
      have y: "isCount y" "intOf y = countOf b pdf"
        using assms(5) Some by (simp_all add: countAt_def countOf_def)
      have "plusValue x y = num (countOf a pdf + countOf b pdf)"
        using plusValue_counts [OF x(1) y(1)] assms(6) x(2) y(2) by simp
      then show ?thesis
        using \<open>valueAt a pdf = Some x\<close> Some m px by simp
    qed
  qed
qed

lemma value_foldl_mergeField:
  assumes "pdf \<notin> set objectPrototypeMembers"
    and "wfOcc (occurrences e)" and "\<forall>f\<in>set fs. wfOcc (occurrences f)"
    and "countAt (occurrences e) pdf" and "\<forall>f\<in>set fs. countAt (occurrences f) pdf"
    and "countOf (occurrences e) pdf + sum_list (map (\<lambda>f. countOf (occurrences f) pdf) fs) < 2 ^ 53"
  shows "valueAt (occurrences (foldl mergeField e fs)) pdf =
       (if valueAt (occurrences e) pdf = None \<and> (\<forall>f\<in>set fs. valueAt (occurrences f) pdf = None)
        then None
        else Some (num (countOf (occurrences e) pdf
               + sum_list (map (\<lambda>f. countOf (occurrences f) pdf) fs))))"
  using assms(2-)
proof (induction fs arbitrary: e)
  case Nil
  show ?case
  proof (cases "valueAt (occurrences e) pdf")
    case None
    then show ?thesis by simp
  next
    case (Some v)
    then show ?thesis using valueAt_count [OF Nil.prems(3) Some] by simp
  qed
next
  case (Cons f fs)
  let ?e' = "mergeField e f"
  let ?rest = "sum_list (map (\<lambda>f. countOf (occurrences f) pdf) fs)"
  have nn: "0 \<le> ?rest"
    using Cons.prems(4) by (auto intro!: sum_list_nonneg simp: countOf_nonneg)
  have ne: "0 \<le> countOf (occurrences e) pdf" and nf: "0 \<le> countOf (occurrences f) pdf"
    using Cons.prems(3,4) by (simp_all add: countOf_nonneg)
  have bound: "countOf (occurrences e) pdf + countOf (occurrences f) pdf < 2 ^ 53"
    using Cons.prems(5) nn by simp
  have v: "valueAt (occurrences ?e') pdf =
       (if valueAt (occurrences e) pdf = None \<and> valueAt (occurrences f) pdf = None then None
        else Some (num (countOf (occurrences e) pdf + countOf (occurrences f) pdf)))"
    unfolding occurrences_mergeField
    using Cons.prems bound assms(1) by (intro valueAt_mergeOccurrences_counts) simp_all
  have c: "countOf (occurrences ?e') pdf = countOf (occurrences e) pdf + countOf (occurrences f) pdf"
  proof (cases "valueAt (occurrences e) pdf = None \<and> valueAt (occurrences f) pdf = None")
    case True
    then show ?thesis using v by (simp add: countOf_def)
  next
    case False
    then show ?thesis using v by (simp add: countOf_def num_def)
  qed
  have ca: "countAt (occurrences ?e') pdf"
    using v ne nf by (simp add: countAt_def num_def)
  have "valueAt (occurrences (foldl mergeField ?e' fs)) pdf =
       (if valueAt (occurrences ?e') pdf = None \<and> (\<forall>f\<in>set fs. valueAt (occurrences f) pdf = None)
        then None
        else Some (num (countOf (occurrences ?e') pdf + ?rest)))"
    using Cons.prems ca c by (intro Cons.IH) (simp_all add: occurrences_mergeField add.assoc)
  then show ?case using v c by (simp add: add.assoc)
qed

lemma valueAt_None_iff: "valueAt oc pdf = None \<longleftrightarrow> pdf \<notin> docsOf oc"
  by (cases oc) (simp_all add: valueAt_def docsOf_def map_of_eq_None_iff)

lemma distinct_newSet [simp]: "distinct (newSet xs)"
  by (simp add: newSet_firstOccurrences)

lemma normalForm_cloneField: "normalForm (cloneField f)"
  by (simp add: normalForm_def options_cloneField split: option.splits)

lemma normalForm_mergeField: "normalForm e \<Longrightarrow> normalForm (mergeField e f)"
  by (simp add: normalForm_def options_mergeField occurrences_mergeField split: option.splits)

lemma normalForm_foldl_mergeField: "normalForm e \<Longrightarrow> normalForm (foldl mergeField e fs)"
  by (induction fs arbitrary: e) (simp_all add: normalForm_mergeField)

lemma normalForm_dedupeFields: "e \<in> set (dedupeFields fs) \<Longrightarrow> normalForm e"
  using entry_dedupeFields [of e fs]
  by (auto simp: normalForm_foldl_mergeField normalForm_cloneField)

lemma cloneField_normalForm: "normalForm e \<Longrightarrow> cloneField e = e"
  by (cases "options e"; cases "occurrences e")
     (simp_all add: cloneField_def normalForm_def wfOcc_def spread_distinct
        newSet_firstOccurrences firstOccurrences_distinct)

lemma filter_key_distinct:
  "distinct (map g xs) \<Longrightarrow> x \<in> set xs \<Longrightarrow> filter (\<lambda>y. g y = g x) xs = [x]"
proof (induction xs)
  case Nil
  then show ?case by simp
next
  case (Cons a xs)
  show ?case
  proof (cases "a = x")
    case True
    have "filter (\<lambda>y. g y = g x) xs = []"
      using Cons.prems True by (force simp: filter_empty_conv image_iff)
    then show ?thesis using True by simp
  next
    case False
    then have "g a \<noteq> g x" using Cons.prems by auto
    then show ?thesis using Cons False by simp
  qed
qed

lemma dedupeFields_distinct_keys:
  "distinct (map fieldKey fs) \<Longrightarrow> dedupeFields fs = map cloneField fs"
proof -
  assume d: "distinct (map fieldKey fs)"
  have "map (\<lambda>k. the (foldl absorb None (filter (\<lambda>x. fieldKey x = k) fs))) (map fieldKey fs)
          = map cloneField fs"
    using filter_key_distinct [OF d] by (simp add: absorb_def)
  then show ?thesis
    using d by (simp add: dedupeFields_group firstOccurrences_distinct)
qed

lemma dedupeFields_idem: "dedupeFields (dedupeFields fs) = dedupeFields fs"
proof -
  have "distinct (map fieldKey (dedupeFields fs))"
    by (simp add: keys_dedupeFields)
  then have "dedupeFields (dedupeFields fs) = map cloneField (dedupeFields fs)"
    by (rule dedupeFields_distinct_keys)
  also have "\<dots> = dedupeFields fs"
    using normalForm_dedupeFields [of _ fs] by (simp add: cloneField_normalForm map_idI)
  finally show ?thesis .
qed

lemma find_filter: "find P xs = (case filter P xs of [] \<Rightarrow> None | x # _ \<Rightarrow> Some x)"
  by (induction xs) simp_all

lemma isWhiteSpace_lowerChar [simp]: "isWhiteSpace (lowerChar c) = isWhiteSpace c"
proof -
  have "of_char (char_of (of_char c + 32 :: nat)) = (of_char c + 32 :: nat)" if "(of_char c :: nat) \<le> 90"
    using that by simp
  then show ?thesis
    by (auto simp: isWhiteSpace_def lowerChar_def Let_def)
qed

lemma trim_toLowerCase: "trim (toLowerCase s) = toLowerCase (trim s)"
  by (simp add: trim_def toLowerCase_def dropWhile_map rev_map comp_def)

lemma trim_padding:
  assumes "list_all isWhiteSpace p" and "list_all isWhiteSpace q"
  shows "trim (p @ s @ q) = trim s"
proof -
  have p: "dropWhile isWhiteSpace (p @ s @ q) = dropWhile isWhiteSpace (s @ q)"
    using assms(1) by (simp add: dropWhile_append2 list_all_iff)
  have q: "dropWhile isWhiteSpace (rev q @ ys) = dropWhile isWhiteSpace ys" for ys
    using assms(2) by (intro dropWhile_append2) (simp add: list_all_iff)
  show ?thesis
  proof (cases "\<forall>x\<in>set s. isWhiteSpace x")
    case True
    then have e: "dropWhile isWhiteSpace (s @ q) = []" "dropWhile isWhiteSpace s = []"
      using assms(2) by (auto simp: list_all_iff)
    show ?thesis unfolding trim_def p e by simp
  next
    case False
    then have e: "dropWhile isWhiteSpace (s @ q) = dropWhile isWhiteSpace s @ q"
      by (auto simp: dropWhile_append1)
    show ?thesis unfolding trim_def p e by (simp add: q)
  qed
qed

lemma normalizeName_ignores:
  assumes "list_all isWhiteSpace p" and "list_all isWhiteSpace q" and "toLowerCase s = toLowerCase t"
  shows "normalizeName (p @ s @ q) = normalizeName t"
proof -
  have "normalizeName (p @ s @ q) = toLowerCase (trim s)"
    by (simp add: normalizeName_def trim_padding assms)
  also have "\<dots> = trim (toLowerCase t)"
    using assms(3) by (simp add: trim_toLowerCase [symmetric])
  finally show ?thesis by (simp add: normalizeName_def trim_toLowerCase)
qed

lemma one_entry_per_key:
  assumes "f \<in> set fs"
  shows "length (filter (\<lambda>e. fieldKey e = fieldKey f) (dedupeFields fs)) = 1"
proof -
  let ?out = "dedupeFields fs"
  have d: "distinct (map fieldKey ?out)" by (simp add: keys_dedupeFields)
  have "fieldKey f \<in> set (map fieldKey ?out)"
    using assms by (simp add: keys_dedupeFields)
  then obtain e where e: "e \<in> set ?out" "fieldKey e = fieldKey f" by auto
  then have "filter (\<lambda>y. fieldKey y = fieldKey e) ?out = [e]"
    using filter_key_distinct [OF d] by blast
  then show ?thesis using e by simp
qed

lemma entry_first:
  assumes "e \<in> set (dedupeFields fs)"
  shows "\<exists>f. find (\<lambda>x. fieldKey x = fieldKey e) fs = Some f \<and> name e = name f \<and> kind e = kind f"
proof -
  obtain f rest where "filter (\<lambda>x. fieldKey x = fieldKey e) fs = f # rest"
    and "e = foldl mergeField (cloneField f) rest"
    using entry_dedupeFields [OF assms] by blast
  then show ?thesis by (simp add: find_filter)
qed

section \<open>The deduplicator: the claims\<close>

text \<open>
  C1: for every input, no two entries of the output of \<^const>\<open>dedupeFields\<close> have the
  same trimmed, lowercased name, and the entries are in the order in which their
  normalized names first occur in the input.
\<close>

theorem dedupeFields_keys_distinct_first_seen:
  "distinct (map fieldKey (dedupeFields fs))
   \<and> map fieldKey (dedupeFields fs) = firstOccurrences (map fieldKey fs)"
  by (simp add: keys_dedupeFields)

theorem dedupeFields_keys_distinct_first_seen_witness:
  "distinct (map fieldKey (dedupeFields exampleMixed))
   \<and> map fieldKey (dedupeFields exampleMixed) = firstOccurrences (map fieldKey exampleMixed)
   \<and> map fieldKey exampleMixed = [''zip'', ''name'', ''zip'', ''age'', ''name'']
   \<and> map fieldKey (dedupeFields exampleMixed) = [''zip'', ''name'', ''age'']"
proof -
  have "map fieldKey exampleMixed = [''zip'', ''name'', ''zip'', ''age'', ''name'']"
    by code_simp
  moreover have "map fieldKey (dedupeFields exampleMixed) = [''zip'', ''name'', ''age'']"
    by code_simp
  ultimately show ?thesis
    using dedupeFields_keys_distinct_first_seen [of exampleMixed] by simp
qed

text \<open>
  C3: for a document whose name is not that of a member of \<^verbatim>\<open>Object.prototype\<close>, when
  the counts that the contributors of an entry give it are integers that are not
  negative and their sum is below \<open>2^53\<close>, the occurrences of the entry give the document
  that sum, an absent count being 0, and give it nothing when no contributor has the
  document. The entry has no occurrences exactly when no contributor has any. The
  occurrences of the input are objects (no document twice among the keys of one
  mapping). The counterexample has the two inputs that the hypotheses leave out: for a
  document named \<^verbatim>\<open>constructor\<close> the entry holds a string, and the counts \<open>2^53\<close> and 1
  add up to \<open>2^53\<close>.
\<close>

theorem dedupeFields_occurrences_sum:
  assumes "\<forall>f\<in>set fs. wfOcc (occurrences f)"
    and "e \<in> set (dedupeFields fs)"
    and "pdf \<notin> set objectPrototypeMembers"
    and "\<forall>f\<in>set (contributors e fs). countAt (occurrences f) pdf"
    and "sum_list (map (\<lambda>f. countOf (occurrences f) pdf) (contributors e fs)) < 2 ^ 53"
  shows "(occurrences e = None \<longleftrightarrow> (\<forall>f\<in>set (contributors e fs). occurrences f = None))
     \<and> wfOcc (occurrences e)
     \<and> valueAt (occurrences e) pdf =
         (if \<forall>f\<in>set (contributors e fs). pdf \<notin> docsOf (occurrences f) then None
          else Some (num (sum_list (map (\<lambda>f. countOf (occurrences f) pdf) (contributors e fs)))))"
proof -
  obtain f rest where g: "contributors e fs = f # rest"
    and e: "e = foldl mergeField (cloneField f) rest"
    using entry_dedupeFields [OF assms(2)] unfolding contributors_def by blast
  have "set (f # rest) \<subseteq> set fs"
    using g [symmetric] by (simp add: contributors_def)
  then have wf: "wfOcc (occurrences f)" "\<forall>x\<in>set rest. wfOcc (occurrences x)"
    using assms(1) by auto
  have c: "occurrences (cloneField f) = occurrences f"
    using wf(1) by (rule occurrences_cloneField_wf)
  have ca: "countAt (occurrences f) pdf" "\<forall>x\<in>set rest. countAt (occurrences x) pdf"
    using assms(4) by (simp_all add: g)
  have bound: "countOf (occurrences f) pdf
      + sum_list (map (\<lambda>x. countOf (occurrences x) pdf) rest) < 2 ^ 53"
    using assms(5) by (simp add: g)
  have none: "occurrences e = None \<longleftrightarrow> (\<forall>x\<in>set (f # rest). occurrences x = None)"
    by (simp add: e occurrences_foldl_mergeField_None c)
  have wfe: "wfOcc (occurrences e)"
    by (simp add: e wfOcc_foldl_mergeField)
  have "valueAt (occurrences e) pdf =
       (if valueAt (occurrences f) pdf = None \<and> (\<forall>x\<in>set rest. valueAt (occurrences x) pdf = None)
        then None
        else Some (num (countOf (occurrences f) pdf
               + sum_list (map (\<lambda>x. countOf (occurrences x) pdf) rest))))"
    using value_foldl_mergeField [OF assms(3), of "cloneField f" rest] wf ca bound
    by (simp add: e c)
  then have val: "valueAt (occurrences e) pdf =
       (if \<forall>x\<in>set (f # rest). pdf \<notin> docsOf (occurrences x) then None
        else Some (num (sum_list (map (\<lambda>x. countOf (occurrences x) pdf) (f # rest)))))"
    by (simp add: valueAt_None_iff)
  show ?thesis using none wfe val by (simp only: g)
qed

theorem dedupeFields_occurrences_sum_witness:
  "list_all (\<lambda>f. wfOcc (occurrences f)) exampleNames
   \<and> dedupeFields exampleNames =
       [(field ''Name'' Text)\<lparr>required := Some True,
           occurrences := Some [(''a.pdf'', num 3), (''b.pdf'', num 4)]\<rparr>]
   \<and> ''a.pdf'' \<notin> set objectPrototypeMembers
   \<and> contributors (hd (dedupeFields exampleNames)) exampleNames = exampleNames
   \<and> list_all (\<lambda>f. countAt (occurrences f) ''a.pdf'') exampleNames
   \<and> sum_list (map (\<lambda>f. countOf (occurrences f) ''a.pdf'') exampleNames) = 3
   \<and> valueAt (occurrences (hd (dedupeFields exampleNames))) ''a.pdf''
       = Some (num (sum_list (map (\<lambda>f. countOf (occurrences f) ''a.pdf'') exampleNames)))
   \<and> mergeOccurrences (Some [(''a.pdf'', num 1)]) (Some [(''a.pdf'', num 2), (''b.pdf'', num 1)])
       = Some [(''a.pdf'', num 3), (''b.pdf'', num 1)]"
proof -
  have wf: "list_all (\<lambda>f. wfOcc (occurrences f)) exampleNames"
    by code_simp
  have ex: "mergeOccurrences (Some [(''a.pdf'', num 1)]) (Some [(''a.pdf'', num 2), (''b.pdf'', num 1)])
       = Some [(''a.pdf'', num 3), (''b.pdf'', num 1)]"
    by code_simp
  have out: "dedupeFields exampleNames =
       [(field ''Name'' Text)\<lparr>required := Some True,
           occurrences := Some [(''a.pdf'', num 3), (''b.pdf'', num 4)]\<rparr>]"
    by code_simp
  have p: "''a.pdf'' \<notin> set objectPrototypeMembers"
    by code_simp
  have g: "contributors (hd (dedupeFields exampleNames)) exampleNames = exampleNames"
    by code_simp
  have ca: "list_all (\<lambda>f. countAt (occurrences f) ''a.pdf'') exampleNames"
    by code_simp
  have s: "sum_list (map (\<lambda>f. countOf (occurrences f) ''a.pdf'') exampleNames) = 3"
    by code_simp
  have d: "\<not> (\<forall>f\<in>set exampleNames. ''a.pdf'' \<notin> docsOf (occurrences f))"
    by (simp add: exampleNames_def docsOf_def field_def)
  have h1: "\<forall>f\<in>set exampleNames. wfOcc (occurrences f)"
    using wf by (simp add: list_all_iff)
  have h2: "hd (dedupeFields exampleNames) \<in> set (dedupeFields exampleNames)"
    by (simp add: out)
  have h4: "\<forall>f\<in>set (contributors (hd (dedupeFields exampleNames)) exampleNames).
      countAt (occurrences f) ''a.pdf''"
    using ca by (simp add: g list_all_iff)
  have h5: "sum_list (map (\<lambda>f. countOf (occurrences f) ''a.pdf'')
      (contributors (hd (dedupeFields exampleNames)) exampleNames)) < 2 ^ 53"
    by (simp add: g s)
  have "valueAt (occurrences (hd (dedupeFields exampleNames))) ''a.pdf''
       = Some (num (sum_list (map (\<lambda>f. countOf (occurrences f) ''a.pdf'') exampleNames)))"
    using dedupeFields_occurrences_sum [OF h1 h2 p h4 h5] d by (simp only: g if_False)
  then show ?thesis using wf out p g ca s ex by simp
qed

theorem dedupeFields_occurrences_counterexample:
  "dedupeFields exampleConstructor =
       [(field ''Total'' Text)\<lparr>occurrences :=
           Some [(''constructor'',
                  Str [MemberText ''constructor'', NumberText (Finite 1), NumberText (Finite 2)])]\<rparr>]
   \<and> sum_list (map (\<lambda>f. countOf (occurrences f) ''constructor'') exampleConstructor) = 3
   \<and> valueAt (occurrences (hd (dedupeFields exampleConstructor))) ''constructor'' \<noteq> Some (num 3)
   \<and> dedupeFields exampleLarge =
       [(field ''Total'' Text)\<lparr>occurrences := Some [(''a.pdf'', num 9007199254740992)]\<rparr>]
   \<and> sum_list (map (\<lambda>f. countOf (occurrences f) ''a.pdf'') exampleLarge) = 9007199254740993
   \<and> valueAt (occurrences (hd (dedupeFields exampleLarge))) ''a.pdf'' \<noteq> Some (num 9007199254740993)"
proof -
  have c: "dedupeFields exampleConstructor =
       [(field ''Total'' Text)\<lparr>occurrences :=
           Some [(''constructor'',
                  Str [MemberText ''constructor'', NumberText (Finite 1), NumberText (Finite 2)])]\<rparr>]"
    by code_simp
  have cs: "sum_list (map (\<lambda>f. countOf (occurrences f) ''constructor'') exampleConstructor) = 3"
    by code_simp
  have l: "dedupeFields exampleLarge =
       [(field ''Total'' Text)\<lparr>occurrences := Some [(''a.pdf'', num 9007199254740992)]\<rparr>]"
    by code_simp
  have ls: "sum_list (map (\<lambda>f. countOf (occurrences f) ''a.pdf'') exampleLarge) = 9007199254740993"
    by code_simp
  show ?thesis unfolding c l cs ls by (simp add: valueAt_def num_def)
qed

text \<open>
  C4: the options of an entry of the output are the options of its contributors, in
  the order of the input, each kept at its first occurrence only; the entry has no
  options exactly when no contributor has any. At one merge, the options of the stored
  entry come first, then the new ones of the later descriptor.
\<close>

theorem dedupeFields_options_union:
  assumes "e \<in> set (dedupeFields fs)"
  shows "options e =
           (if \<forall>x\<in>set (contributors e fs). options x = None then None
            else Some (firstOccurrences (concat (map optionsOf (contributors e fs)))))
         \<and> options (mergeField existing f) =
           (if options existing = None \<and> options f = None then None
            else Some (firstOccurrences (optionsOf existing @ optionsOf f)))"
proof -
  obtain f' rest where g: "contributors e fs = f' # rest"
    and e: "e = foldl mergeField (cloneField f') rest"
    using entry_dedupeFields [OF assms] unfolding contributors_def by blast
  have "options e =
      (if \<forall>x\<in>set (f' # rest). options x = None then None
       else Some (firstOccurrences (concat (map optionsOf (f' # rest)))))"
    unfolding e by (rule options_group)
  then have "options e =
      (if \<forall>x\<in>set (contributors e fs). options x = None then None
       else Some (firstOccurrences (concat (map optionsOf (contributors e fs)))))"
    by (simp only: g)
  then show ?thesis
    by (simp only: options_mergeField newSet_firstOccurrences)
qed

theorem dedupeFields_options_union_witness:
  "dedupeFields exampleCountries = [(field ''Country'' Text)\<lparr>options := Some [''US'', ''CA'', ''MX'']\<rparr>]
   \<and> contributors (hd (dedupeFields exampleCountries)) exampleCountries = exampleCountries
   \<and> options (hd (dedupeFields exampleCountries))
       = Some (firstOccurrences (concat (map optionsOf exampleCountries)))
   \<and> firstOccurrences (concat (map optionsOf exampleCountries)) = [''US'', ''CA'', ''MX'']
   \<and> options (mergeField (exampleCountries ! 0) (exampleCountries ! 1)) = Some [''US'', ''CA'', ''MX'']"
proof -
  have out: "dedupeFields exampleCountries =
      [(field ''Country'' Text)\<lparr>options := Some [''US'', ''CA'', ''MX'']\<rparr>]"
    by code_simp
  have g: "contributors (hd (dedupeFields exampleCountries)) exampleCountries = exampleCountries"
    by code_simp
  have u: "firstOccurrences (concat (map optionsOf exampleCountries)) = [''US'', ''CA'', ''MX'']"
    by code_simp
  have n: "\<not> (\<forall>f\<in>set exampleCountries. options f = None)"
    by (simp add: exampleCountries_def field_def)
  have m: "options (mergeField (exampleCountries ! 0) (exampleCountries ! 1)) = Some [''US'', ''CA'', ''MX'']"
    by code_simp
  have "hd (dedupeFields exampleCountries) \<in> set (dedupeFields exampleCountries)"
    by (simp add: out)
  from dedupeFields_options_union [OF this]
  have "options (hd (dedupeFields exampleCountries))
       = Some (firstOccurrences (concat (map optionsOf exampleCountries)))"
    using n by (simp only: g if_False)
  then show ?thesis using out g u m by simp
qed

text \<open>
  C5: names are matched after trimming and without regard to case: surrounding white
  space and the case of the letters do not change the key of a name, all the descriptors
  of the input with one key go into one entry of the output, and that entry has the
  name, as written, and the kind of the first descriptor of the input with that key.
\<close>

theorem dedupeFields_first_name_and_kind:
  "(list_all isWhiteSpace p \<and> list_all isWhiteSpace q \<and> toLowerCase s = toLowerCase t
      \<longrightarrow> normalizeName (p @ s @ q) = normalizeName t)
   \<and> (f \<in> set fs \<longrightarrow> length (filter (\<lambda>e. fieldKey e = fieldKey f) (dedupeFields fs)) = 1)
   \<and> (e \<in> set (dedupeFields fs) \<longrightarrow>
        (\<exists>f. find (\<lambda>x. fieldKey x = fieldKey e) fs = Some f \<and> name e = name f \<and> kind e = kind f))"
  using normalizeName_ignores [of p q s t] one_entry_per_key [of f fs] entry_first [of e fs]
  by blast

theorem dedupeFields_first_name_and_kind_witness:
  "list_all isWhiteSpace '' '' \<and> toLowerCase ''zip'' = toLowerCase ''Zip''
   \<and> normalizeName ('' '' @ ''zip'' @ '' '') = normalizeName ''Zip''
   \<and> exampleMixed ! 2 \<in> set exampleMixed
   \<and> length (filter (\<lambda>e. fieldKey e = fieldKey (exampleMixed ! 2)) (dedupeFields exampleMixed)) = 1
   \<and> dedupeFields exampleMixed = [field ''Zip'' Number, field ''Name'' Text, field ''Age'' Number]
   \<and> field ''Name'' Text \<in> set (dedupeFields exampleMixed)
   \<and> find (\<lambda>x. fieldKey x = fieldKey (field ''Name'' Text)) exampleMixed = Some (field ''Name'' Text)"
proof -
  have w: "list_all isWhiteSpace '' ''" by code_simp
  have l: "toLowerCase ''zip'' = toLowerCase ''Zip''" by code_simp
  have m: "exampleMixed ! 2 \<in> set exampleMixed" by (simp add: exampleMixed_def)
  have out: "dedupeFields exampleMixed = [field ''Zip'' Number, field ''Name'' Text, field ''Age'' Number]"
    by code_simp
  have e: "field ''Name'' Text \<in> set (dedupeFields exampleMixed)" by (simp add: out)
  have f: "find (\<lambda>x. fieldKey x = fieldKey (field ''Name'' Text)) exampleMixed = Some (field ''Name'' Text)"
    by code_simp
  show ?thesis
    using w l m out e f
      dedupeFields_first_name_and_kind [of "'' ''" "'' ''" "''zip''" "''Zip''" "exampleMixed ! 2"
        exampleMixed "field ''Name'' Text"]
    by simp
qed

text \<open>C9: \<^const>\<open>dedupeFields\<close> is idempotent.\<close>

theorem dedupeFields_idempotent: "dedupeFields (dedupeFields fs) = dedupeFields fs"
  by (rule dedupeFields_idem)

theorem dedupeFields_idempotent_witness:
  "dedupeFields (dedupeFields exampleNames) = dedupeFields exampleNames
   \<and> dedupeFields exampleNames \<noteq> exampleNames"
proof -
  have "dedupeFields exampleNames \<noteq> exampleNames" by code_simp
  then show ?thesis using dedupeFields_idempotent [of exampleNames] by simp
qed

section \<open>Properties of the store\<close>

subsection \<open>The signature\<close>

lemma mset_insertBy [simp]: "mset (insertBy cmp x ys) = add_mset x (mset ys)"
  by (induction ys) simp_all

lemma mset_sortBy [simp]: "mset (sortBy cmp xs) = mset xs"
  by (induction xs) (simp_all add: sortBy_def)

lemma set_insertBy [simp]: "set (insertBy cmp x ys) = insert x (set ys)"
  by (induction ys) auto

lemma set_sortBy [simp]: "set (sortBy cmp xs) = set xs"
  using mset_sortBy [of cmp xs] by (metis set_mset_mset)

lemma sortBy_Cons: "sortBy cmp (x # xs) = insertBy cmp x (sortBy cmp xs)"
  by (simp add: sortBy_def)

lemma sorted_insertBy:
  assumes total: "\<forall>a\<in>S. \<forall>b\<in>S. cmp a b \<le> 0 \<or> cmp b a \<le> 0"
    and trans: "\<forall>a\<in>S. \<forall>b\<in>S. \<forall>c\<in>S. cmp a b \<le> 0 \<and> cmp b c \<le> 0 \<longrightarrow> cmp a c \<le> 0"
    and "x \<in> S" and "set ys \<subseteq> S"
    and "sorted_wrt (\<lambda>a b. cmp a b \<le> 0) ys"
  shows "sorted_wrt (\<lambda>a b. cmp a b \<le> 0) (insertBy cmp x ys)"
  using assms(4,5)
proof (induction ys)
  case Nil
  show ?case by simp
next
  case (Cons y ys)
  have y: "y \<in> S" and ys: "set ys \<subseteq> S" using Cons.prems(1) by simp_all
  show ?case
  proof (cases "cmp x y \<le> 0")
    case True
    have "cmp x z \<le> 0" if "z \<in> set ys" for z
    proof -
      have "cmp y z \<le> 0" using Cons.prems(2) that by simp
      moreover have "z \<in> S" using that ys by auto
      ultimately show ?thesis using trans True assms(3) y by blast
    qed
    then show ?thesis using True Cons.prems(2) by simp
  next
    case False
    then have "cmp y x \<le> 0" using total assms(3) y by blast
    moreover have "sorted_wrt (\<lambda>a b. cmp a b \<le> 0) (insertBy cmp x ys)"
      using Cons.IH ys Cons.prems(2) by simp
    ultimately show ?thesis using False Cons.prems(2) by auto
  qed
qed

lemma sorted_sortBy:
  assumes "\<forall>a\<in>S. \<forall>b\<in>S. cmp a b \<le> 0 \<or> cmp b a \<le> 0"
    and "\<forall>a\<in>S. \<forall>b\<in>S. \<forall>c\<in>S. cmp a b \<le> 0 \<and> cmp b c \<le> 0 \<longrightarrow> cmp a c \<le> 0"
    and "set xs \<subseteq> S"
  shows "sorted_wrt (\<lambda>a b. cmp a b \<le> 0) (sortBy cmp xs)"
  using assms(3)
proof (induction xs)
  case Nil
  show ?case by (simp add: sortBy_def)
next
  case (Cons x xs)
  have "sorted_wrt (\<lambda>a b. cmp a b \<le> 0) (sortBy cmp xs)" using Cons by simp
  moreover have "x \<in> S" "set (sortBy cmp xs) \<subseteq> S" using Cons.prems by simp_all
  ultimately show ?case
    unfolding sortBy_Cons by (intro sorted_insertBy [OF assms(1,2)])
qed

lemma sorted_wrt_unique:
  assumes total: "\<forall>a\<in>S. \<forall>b\<in>S. le a b \<or> le b a"
    and antisym: "\<forall>a\<in>S. \<forall>b\<in>S. le a b \<and> le b a \<longrightarrow> a = b"
    and "set xs \<subseteq> S"
    and "sorted_wrt le xs" and "sorted_wrt le ys" and "mset xs = mset ys"
  shows "xs = ys"
  using assms(3-)
proof (induction xs arbitrary: ys)
  case Nil
  then show ?case by simp
next
  case (Cons x xs)
  then obtain y ys' where ys: "ys = y # ys'" by (cases ys) auto
  have sets: "set ys = set (x # xs)" using Cons.prems(4) by (metis set_mset_mset)
  have x: "x \<in> S" using Cons.prems(1) by simp
  have "y \<in> set (x # xs)" using sets ys by (metis list.set_intros(1))
  then have y: "y \<in> S" using Cons.prems(1) by blast
  have refl: "le a a" if "a \<in> S" for a using total that by blast
  have "x \<in> set ys" using sets by simp
  then have yx: "le y x" using Cons.prems(3) refl [OF x] by (auto simp: ys)
  have "y \<in> set ys" using ys by simp
  then have "y \<in> set (x # xs)" using sets by blast
  then have xy: "le x y" using Cons.prems(2) refl [OF y] by auto
  have eq: "x = y" using antisym x y xy yx by blast
  then have "mset xs = mset ys'" using Cons.prems(4) ys by simp
  moreover have "sorted_wrt le xs" "sorted_wrt le ys'" "set xs \<subseteq> S"
    using Cons.prems(1,2,3) ys by simp_all
  ultimately have "xs = ys'" using Cons.IH by blast
  then show ?case using eq ys by simp
qed

lemma sortBy_mset_cong:
  assumes "linearOn cmp xs" and "mset xs = mset ys"
  shows "sortBy cmp xs = sortBy cmp ys"
proof -
  let ?S = "set xs"
  have sets: "set ys = ?S" using assms(2) by (metis set_mset_mset)
  have total: "\<forall>a\<in>?S. \<forall>b\<in>?S. cmp a b \<le> 0 \<or> cmp b a \<le> 0"
    and trans: "\<forall>a\<in>?S. \<forall>b\<in>?S. \<forall>c\<in>?S. cmp a b \<le> 0 \<and> cmp b c \<le> 0 \<longrightarrow> cmp a c \<le> 0"
    and antisym: "\<forall>a\<in>?S. \<forall>b\<in>?S. cmp a b \<le> 0 \<and> cmp b a \<le> 0 \<longrightarrow> a = b"
    using assms(1) unfolding linearOn_def by blast+
  show ?thesis
  proof (rule sorted_wrt_unique [where le = "\<lambda>a b. cmp a b \<le> 0" and S = ?S])
    show "\<forall>a\<in>?S. \<forall>b\<in>?S. cmp a b \<le> 0 \<or> cmp b a \<le> 0" by (rule total)
    show "\<forall>a\<in>?S. \<forall>b\<in>?S. cmp a b \<le> 0 \<and> cmp b a \<le> 0 \<longrightarrow> a = b" by (rule antisym)
    show "set (sortBy cmp xs) \<subseteq> ?S" by simp
    show "sorted_wrt (\<lambda>a b. cmp a b \<le> 0) (sortBy cmp xs)"
      by (rule sorted_sortBy [OF total trans]) simp
    show "sorted_wrt (\<lambda>a b. cmp a b \<le> 0) (sortBy cmp ys)"
      by (rule sorted_sortBy [OF total trans]) (simp add: sets)
    show "mset (sortBy cmp xs) = mset (sortBy cmp ys)" using assms(2) by simp
  qed
qed

lemma selectionSignature_mset_cong:
  assumes "linearOn cmp xs" and "mset xs = mset ys"
  shows "selectionSignature cmp xs = selectionSignature cmp ys"
  using sortBy_mset_cong [OF assms] by (simp add: selectionSignature_def)

lemma selectionSignature_Nil [simp]: "selectionSignature cmp [] = []"
  by (simp add: selectionSignature_def sortBy_def)

lemma selectionSignature_single [simp]: "selectionSignature cmp [x] = x"
  by (simp add: selectionSignature_def sortBy_def)

lemma codeUnitCompare_le: "codeUnitCompare a b \<le> 0 \<longleftrightarrow> a \<le> b"
  unfolding codeUnitCompare_def by (simp add: less_le not_le)

lemma linearOn_codeUnitCompare: "linearOn codeUnitCompare xs"
  unfolding linearOn_def codeUnitCompare_le by auto

subsection \<open>The actions\<close>

lemma getProperty_Own: "getProperty obj k = Own v \<longleftrightarrow> map_of obj k = Some v"
  by (simp add: getProperty_def split: option.splits)

lemma getProperty_Undefined:
  "getProperty obj k = Undefined \<longleftrightarrow> map_of obj k = None \<and> k \<notin> set objectPrototypeMembers"
  by (simp add: getProperty_def split: option.splits)

lemma getProperty_Inherited:
  "getProperty obj k = Inherited m \<longleftrightarrow>
     map_of obj k = None \<and> k \<in> set objectPrototypeMembers \<and> m = k"
  by (auto simp: getProperty_def split: option.splits)

lemma fetchCombinedFields_hit:
  assumes "getProperty (fieldsCache s) (selectionSignature cmp (selectedPdfs s)) \<noteq> Undefined"
  shows "fetchCombinedFields cmp getCombinedFields s
     = (Inr (),
        s\<lparr>combinedFields := getProperty (fieldsCache s) (selectionSignature cmp (selectedPdfs s))\<rparr>,
        [CacheRead (selectionSignature cmp (selectedPdfs s))])"
  using assms by (simp add: fetchCombinedFields_def Let_def)

lemma fetchCombinedFields_empty:
  assumes "getProperty (fieldsCache s) (selectionSignature cmp (selectedPdfs s)) = Undefined"
    and "selectedPdfs s = []"
  shows "fetchCombinedFields cmp getCombinedFields s
     = (Inr (), s\<lparr>combinedFields := Own []\<rparr>, [CacheRead (selectionSignature cmp (selectedPdfs s))])"
  using assms by (simp add: fetchCombinedFields_def Let_def)

lemma fetchCombinedFields_failed:
  assumes "getProperty (fieldsCache s) (selectionSignature cmp (selectedPdfs s)) = Undefined"
    and "selectedPdfs s \<noteq> []"
    and "getCombinedFields (selectedPdfs s) = Inl err"
  shows "fetchCombinedFields cmp getCombinedFields s
     = (Inl err, s\<lparr>isLoadingFields := False\<rparr>,
        [CacheRead (selectionSignature cmp (selectedPdfs s)), ServiceCall (selectedPdfs s) False])"
  using assms by (simp add: fetchCombinedFields_def Let_def)

lemma fetchCombinedFields_answered:
  assumes "distinct (map fst (fieldsCache s))"
    and "getProperty (fieldsCache s) (selectionSignature cmp (selectedPdfs s)) = Undefined"
    and "selectedPdfs s \<noteq> []"
    and "getCombinedFields (selectedPdfs s) = Inr res"
  shows "fetchCombinedFields cmp getCombinedFields s
     = (Inr (),
        s\<lparr>combinedFields := Own (dedupeFields (fields_r res)),
          isLoadingFields := False,
          fieldsCache := fieldsCache s
            @ [(selectionSignature cmp (selectedPdfs s), dedupeFields (fields_r res))]\<rparr>,
        [CacheRead (selectionSignature cmp (selectedPdfs s)), ServiceCall (selectedPdfs s) True,
         CacheWrite (selectionSignature cmp (selectedPdfs s))])"
proof -
  let ?sig = "selectionSignature cmp (selectedPdfs s)"
  have "?sig \<notin> fst ` set (fieldsCache s)"
    using assms(2) by (simp add: getProperty_Undefined map_of_eq_None_iff)
  then have "AList.update ?sig d (spread (fieldsCache s)) = fieldsCache s @ [(?sig, d)]" for d
    using assms(1) by (simp add: spread_distinct update_fresh)
  then show ?thesis
    using assms(2-) by (simp add: fetchCombinedFields_def Let_def)
qed

lemma fetchCombinedFields_effect:
  assumes "distinct (map fst (fieldsCache s))"
    and "fetchCombinedFields cmp getCombinedFields s = (r, s', evs)"
  shows "cacheKept cmp s s' evs \<or> cacheExtended cmp s s' evs"
proof -
  let ?sig = "selectionSignature cmp (selectedPdfs s)"
  show ?thesis
  proof (cases "getProperty (fieldsCache s) ?sig")
    case (Own v)
    then have "(r, s', evs) = (Inr (), s\<lparr>combinedFields := Own v\<rparr>, [CacheRead ?sig])"
      using fetchCombinedFields_hit [of s cmp getCombinedFields] assms(2) by simp
    moreover have "v \<in> snd ` set (fieldsCache s)"
      using Own map_of_SomeD [of "fieldsCache s" ?sig v]
      by (auto simp: getProperty_Own intro: rev_image_eqI)
    ultimately have "cacheKept cmp s s' evs" by (simp add: cacheKept_def)
    then show ?thesis ..
  next
    case (Inherited m)
    then have "(r, s', evs) = (Inr (), s\<lparr>combinedFields := Inherited m\<rparr>, [CacheRead ?sig])"
      using fetchCombinedFields_hit [of s cmp getCombinedFields] assms(2) by simp
    moreover have "m \<in> set objectPrototypeMembers"
      using Inherited by (simp add: getProperty_Inherited)
    ultimately have "cacheKept cmp s s' evs" by (simp add: cacheKept_def)
    then show ?thesis ..
  next
    case Undefined
    note miss = this
    show ?thesis
    proof (cases "selectedPdfs s = []")
      case True
      then have "(r, s', evs) = (Inr (), s\<lparr>combinedFields := Own []\<rparr>, [CacheRead ?sig])"
        using fetchCombinedFields_empty [OF miss, of getCombinedFields] assms(2) by simp
      then have "cacheKept cmp s s' evs" by (simp add: cacheKept_def)
      then show ?thesis ..
    next
      case False
      show ?thesis
      proof (cases "getCombinedFields (selectedPdfs s)")
        case (Inl err)
        then have "(r, s', evs) = (Inl err, s\<lparr>isLoadingFields := False\<rparr>,
            [CacheRead ?sig, ServiceCall (selectedPdfs s) False])"
          using fetchCombinedFields_failed [OF miss False] assms(2) by simp
        then have "cacheKept cmp s s' evs" by (simp add: cacheKept_def)
        then show ?thesis ..
      next
        case (Inr res)
        then have eq: "(r, s', evs) = (Inr (),
            s\<lparr>combinedFields := Own (dedupeFields (fields_r res)),
              isLoadingFields := False,
              fieldsCache := fieldsCache s @ [(?sig, dedupeFields (fields_r res))]\<rparr>,
            [CacheRead ?sig, ServiceCall (selectedPdfs s) True, CacheWrite ?sig])"
          using fetchCombinedFields_answered [OF assms(1) miss False] assms(2) by simp
        have "map_of (fieldsCache s) ?sig = None"
          using miss by (simp add: getProperty_Undefined)
        then have "cacheExtended cmp s s' evs"
          unfolding cacheExtended_def
          apply (intro exI [of _ "selectedPdfs s"] exI [of _ "fields_r res"])
          using eq by simp
        then show ?thesis ..
      qed
    qed
  qed
qed

lemma cacheKept_selectedPdfs [simp]:
  "cacheKept cmp (s\<lparr>selectedPdfs := pdfs\<rparr>) s' evs = cacheKept cmp s s' evs"
  by (simp add: cacheKept_def)

lemma cacheExtended_selectedPdfs [simp]:
  "cacheExtended cmp (s\<lparr>selectedPdfs := pdfs\<rparr>) s' evs = cacheExtended cmp s s' evs"
  by (simp add: cacheExtended_def)

lemma perform_effect:
  assumes "distinct (map fst (fieldsCache s))" and "perform cmp c s = (r, s', evs)"
  shows "cacheKept cmp s s' evs \<or> cacheExtended cmp s s' evs
     \<or> (c = Reset \<and> fieldsCache s' = [] \<and> combinedFields s' = Own [] \<and> evs = [])"
proof (cases c)
  case (LoadPdfs listPdfs)
  then have "cacheKept cmp s s' evs"
    using assms(2) by (auto simp: loadPdfs_def Let_def cacheKept_def split: sum.splits)
  then show ?thesis ..
next
  case (LoadSchema getSchema)
  then have "cacheKept cmp s s' evs"
    using assms(2) by (auto simp: loadSchema_def cacheKept_def split: sum.splits)
  then show ?thesis ..
next
  case (SetSelectedPdfs pdfs getCombinedFields)
  let ?s = "s\<lparr>selectedPdfs := pdfs\<rparr>"
  have d: "distinct (map fst (fieldsCache ?s))" using assms(1) by simp
  have r: "fetchCombinedFields cmp getCombinedFields ?s = (r, s', evs)"
    using assms(2) SetSelectedPdfs by (simp add: setSelectedPdfs_def)
  show ?thesis
    using fetchCombinedFields_effect [OF d r] by auto
next
  case (FetchCombinedFields getCombinedFields)
  have r: "fetchCombinedFields cmp getCombinedFields s = (r, s', evs)"
    using assms(2) FetchCombinedFields by simp
  show ?thesis
    using fetchCombinedFields_effect [OF assms(1) r] by auto
next
  case (UpdateFieldValue nm v)
  then have "cacheKept cmp s s' evs"
    using assms(2) by (auto simp: updateFieldValue_def cacheKept_def)
  then show ?thesis ..
next
  case Reset
  then show ?thesis
    using assms(2) by (auto simp: reset_def)
qed

subsection \<open>Sequences of calls\<close>

lemma run_Nil: "run cmp [] = (initialState, [])"
  by (simp add: run_def)

lemma run_snoc: "run cmp (cs @ [c]) = after cmp (run cmp cs) c"
  by (simp add: run_def)

lemma after_perform:
  "perform cmp c s = (r, s', evs) \<Longrightarrow> after cmp (s, log) c = (s', log @ evs)"
  by (simp add: after_def)

lemma perform_distinct:
  assumes "distinct (map fst (fieldsCache s))" and "perform cmp c s = (r, s', evs)"
  shows "distinct (map fst (fieldsCache s'))"
  using perform_effect [OF assms] assms(1)
  by (auto simp: cacheKept_def cacheExtended_def map_of_eq_None_iff)

lemma distinct_cache_run: "distinct (map fst (fieldsCache (fst (run cmp cs))))"
proof (induction cs rule: rev_induct)
  case Nil
  show ?case by (simp add: run_Nil initialState_def)
next
  case (snoc c cs)
  obtain s log where sl: "run cmp cs = (s, log)" by (cases "run cmp cs")
  obtain r s' evs where p: "perform cmp c s = (r, s', evs)" by (cases "perform cmp c s") auto
  have d: "distinct (map fst (fieldsCache s))" using snoc sl by simp
  show ?case
    using perform_distinct [OF d p] by (simp add: run_snoc sl after_perform [OF p])
qed

lemma dedupeFields_Nil [simp]: "dedupeFields [] = []"
  by (simp add: dedupeFields_def)

lemma deduped_dedupeFields [simp]: "deduped (dedupeFields fs)"
  unfolding deduped_def by (rule exI [of _ fs]) (rule refl)

lemma deduped_Nil [simp]: "deduped []"
  using deduped_dedupeFields [of "[]"] by simp

text \<open>
  In every state that a sequence of calls reaches, the lists of the cache are outputs
  of \<^const>\<open>dedupeFields\<close>, and so are the combined fields unless they are a member of
  \<^verbatim>\<open>Object.prototype\<close>.
\<close>

lemma deduped_run:
  "(dedupedValue (combinedFields (fst (run cmp cs)))
      \<or> combinedFields (fst (run cmp cs)) \<in> Inherited ` set objectPrototypeMembers)
   \<and> (\<forall>v\<in>snd ` set (fieldsCache (fst (run cmp cs))). deduped v)"
proof (induction cs rule: rev_induct)
  case Nil
  show ?case by (simp add: run_Nil initialState_def)
next
  case (snoc c cs)
  obtain s log where sl: "run cmp cs = (s, log)" by (cases "run cmp cs")
  obtain r s' evs where p: "perform cmp c s = (r, s', evs)" by (cases "perform cmp c s") auto
  have d: "distinct (map fst (fieldsCache s))"
    using distinct_cache_run [of cmp cs] sl by simp
  have IH1: "dedupedValue (combinedFields s)
      \<or> combinedFields s \<in> Inherited ` set objectPrototypeMembers"
    and IH2: "\<forall>v\<in>snd ` set (fieldsCache s). deduped v"
    using snoc sl by simp_all
  have "(dedupedValue (combinedFields s')
      \<or> combinedFields s' \<in> Inherited ` set objectPrototypeMembers)
      \<and> (\<forall>v\<in>snd ` set (fieldsCache s'). deduped v)"
    using perform_effect [OF d p]
  proof (elim disjE)
    assume "cacheKept cmp s s' evs"
    then show ?thesis using IH1 IH2 by (auto simp: cacheKept_def)
  next
    assume "cacheExtended cmp s s' evs"
    then show ?thesis using IH2 by (auto simp: cacheExtended_def)
  next
    assume "c = Reset \<and> fieldsCache s' = [] \<and> combinedFields s' = Own [] \<and> evs = []"
    then show ?thesis by simp
  qed
  then show ?case by (simp add: run_snoc sl after_perform [OF p])
qed

lemma answers_run:
  assumes "Reset \<notin> set cs"
  shows "length (filter (answeredFor cmp sig) (snd (run cmp cs)))
           = (if sig \<in> fst ` set (fieldsCache (fst (run cmp cs))) then 1 else 0)"
  using assms
proof (induction cs rule: rev_induct)
  case Nil
  show ?case by (simp add: run_Nil initialState_def)
next
  case (snoc c cs)
  obtain s log where sl: "run cmp cs = (s, log)" by (cases "run cmp cs")
  obtain r s' evs where p: "perform cmp c s = (r, s', evs)" by (cases "perform cmp c s") auto
  have d: "distinct (map fst (fieldsCache s))"
    using distinct_cache_run [of cmp cs] sl by simp
  have IH: "length (filter (answeredFor cmp sig) log)
      = (if sig \<in> fst ` set (fieldsCache s) then 1 else 0)"
    using snoc sl by simp
  have c: "c \<noteq> Reset" using snoc.prems by auto
  have "length (filter (answeredFor cmp sig) (log @ evs))
      = (if sig \<in> fst ` set (fieldsCache s') then 1 else 0)"
    using perform_effect [OF d p]
  proof (elim disjE)
    assume "cacheKept cmp s s' evs"
    then show ?thesis using IH by (simp add: cacheKept_def)
  next
    assume "cacheExtended cmp s s' evs"
    then obtain pdfs fs where miss: "map_of (fieldsCache s) (selectionSignature cmp pdfs) = None"
      and c': "fieldsCache s' = fieldsCache s @ [(selectionSignature cmp pdfs, dedupeFields fs)]"
      and evs: "evs = [CacheRead (selectionSignature cmp pdfs), ServiceCall pdfs True,
               CacheWrite (selectionSignature cmp pdfs)]"
      unfolding cacheExtended_def by blast
    have "selectionSignature cmp pdfs \<notin> fst ` set (fieldsCache s)"
      using miss by (simp add: map_of_eq_None_iff)
    then show ?thesis using IH by (auto simp: c' evs)
  next
    assume "c = Reset \<and> fieldsCache s' = [] \<and> combinedFields s' = Own [] \<and> evs = []"
    then show ?thesis using c by simp
  qed
  then show ?case by (simp add: run_snoc sl after_perform [OF p])
qed

subsection \<open>Selecting documents\<close>

lemma setSelectedPdfs_hit:
  assumes "map_of (fieldsCache s) (selectionSignature cmp pdfs) = Some cached"
  shows "setSelectedPdfs cmp pdfs getCombinedFields s
     = (Inr (), s\<lparr>selectedPdfs := pdfs, combinedFields := Own cached\<rparr>,
        [CacheRead (selectionSignature cmp pdfs)])"
  using assms by (simp add: setSelectedPdfs_def fetchCombinedFields_def getProperty_def)

lemma setSelectedPdfs_miss:
  assumes "getProperty (fieldsCache s) (selectionSignature cmp pdfs) = Undefined"
    and "pdfs \<noteq> []"
  shows "snd (snd (setSelectedPdfs cmp pdfs getCombinedFields s))
     = CacheRead (selectionSignature cmp pdfs) # ServiceCall pdfs (\<not> isl (getCombinedFields pdfs))
         # (if isl (getCombinedFields pdfs) then [] else [CacheWrite (selectionSignature cmp pdfs)])"
    and "isl (getCombinedFields pdfs) \<Longrightarrow>
      fieldsCache (fst (snd (setSelectedPdfs cmp pdfs getCombinedFields s))) = fieldsCache s"
  using assms
  by (auto simp: setSelectedPdfs_def fetchCombinedFields_def Let_def split: sum.splits)

text \<open>
  A collation for which two different strings can compare as equal: the two orders of
  such a pair are sorted to two signatures.
\<close>

lemma selectionSignature_ignoringControls:
  "ignoringControls ''a'' [CHR ''a'', CHR 0x01] = 0
   \<and> selectionSignature ignoringControls [''a'', [CHR ''a'', CHR 0x01]]
       = [CHR ''a'', CHR ''|'', CHR ''|'', CHR ''a'', CHR 0x01]
   \<and> selectionSignature ignoringControls [[CHR ''a'', CHR 0x01], ''a'']
       = [CHR ''a'', CHR 0x01, CHR ''|'', CHR ''|'', CHR ''a'']"
  by code_simp

section \<open>The store: the claims\<close>

text \<open>
  C6: the signature does not depend on the order of the selection, for a selection
  that \<^verbatim>\<open>localeCompare\<close> orders linearly: two lists with the same elements, each as many
  times in one as in the other, then have the same signature. Nothing is assumed of
  \<^verbatim>\<open>localeCompare\<close> but what the hypothesis says: it compares any two identifiers of the
  list, transitively, and no two different ones as equal. The signature does depend on
  the repetitions: the list is sorted and joined as it is, and the counterexample
  gives two lists with the same set of elements and two signatures, whatever the
  collation.
\<close>

theorem selectionSignature_permutation:
  assumes "linearOn localeCompare xs" and "mset xs = mset ys"
  shows "selectionSignature localeCompare xs = selectionSignature localeCompare ys"
  using assms by (rule selectionSignature_mset_cong)

theorem selectionSignature_permutation_witness:
  "linearOn codeUnitCompare [''b.pdf'', ''a.pdf'']
   \<and> mset [''b.pdf'', ''a.pdf''] = mset [''a.pdf'', ''b.pdf'']
   \<and> selectionSignature codeUnitCompare [''b.pdf'', ''a.pdf'']
       = selectionSignature codeUnitCompare [''a.pdf'', ''b.pdf'']
   \<and> selectionSignature codeUnitCompare [''b.pdf'', ''a.pdf''] = ''a.pdf||b.pdf''"
proof -
  have l: "linearOn codeUnitCompare [''b.pdf'', ''a.pdf'']"
    by (rule linearOn_codeUnitCompare)
  have m: "mset [''b.pdf'', ''a.pdf''] = mset [''a.pdf'', ''b.pdf'']"
    by (simp add: add.commute)
  have v: "selectionSignature codeUnitCompare [''b.pdf'', ''a.pdf''] = ''a.pdf||b.pdf''"
    by code_simp
  show ?thesis using l m v selectionSignature_permutation [OF l m] by simp
qed

theorem selectionSignature_duplicate_counterexample:
  "\<forall>localeCompare.
     set [''a.pdf'', ''a.pdf''] = set [''a.pdf'']
     \<and> selectionSignature localeCompare [''a.pdf'', ''a.pdf''] = ''a.pdf||a.pdf''
     \<and> selectionSignature localeCompare [''a.pdf''] = ''a.pdf''
     \<and> selectionSignature localeCompare [''a.pdf'', ''a.pdf'']
         \<noteq> selectionSignature localeCompare [''a.pdf'']"
  by (simp add: selectionSignature_def sortBy_def)

text \<open>
  C8: \<^const>\<open>fetchCombinedFields\<close> calls the service when the cache has nothing under the
  signature of the selection and the selection is not empty. When that call fails, the
  action is rejected with the error of the service, the service has been called once,
  and the store is as before but for \<^const>\<open>isLoadingFields\<close>, which is false: the
  combined fields and the cache are those of before the call.
\<close>

theorem fetchCombinedFields_failure:
  assumes "getProperty (fieldsCache s) (selectionSignature localeCompare (selectedPdfs s))
             = Undefined"
    and "selectedPdfs s \<noteq> []"
    and "getCombinedFields (selectedPdfs s) = Inl err"
  shows "fetchCombinedFields localeCompare getCombinedFields s
           = (Inl err, s\<lparr>isLoadingFields := False\<rparr>,
              [CacheRead (selectionSignature localeCompare (selectedPdfs s)),
               ServiceCall (selectedPdfs s) False])
     \<and> isLoadingFields (fst (snd (fetchCombinedFields localeCompare getCombinedFields s)))
           = False
     \<and> combinedFields (fst (snd (fetchCombinedFields localeCompare getCombinedFields s)))
           = combinedFields s
     \<and> fieldsCache (fst (snd (fetchCombinedFields localeCompare getCombinedFields s)))
           = fieldsCache s"
  using assms by (simp add: fetchCombinedFields_def Let_def)

theorem fetchCombinedFields_failure_witness:
  "getProperty (fieldsCache (fst (run codeUnitCompare exampleCalls)))
       (selectionSignature codeUnitCompare (selectedPdfs (fst (run codeUnitCompare exampleCalls))))
     = Undefined
   \<and> selectedPdfs (fst (run codeUnitCompare exampleCalls)) = [''c.pdf'']
   \<and> notFound [''c.pdf'']
       = Inl (ApiError ''Request failed: Not Found'' 404 ''/api/combined_fields'')
   \<and> fetchCombinedFields codeUnitCompare notFound (fst (run codeUnitCompare exampleCalls))
     = (Inl (ApiError ''Request failed: Not Found'' 404 ''/api/combined_fields''),
        (fst (run codeUnitCompare exampleCalls))\<lparr>isLoadingFields := False\<rparr>,
        [CacheRead ''c.pdf'', ServiceCall [''c.pdf''] False])
   \<and> combinedFields (fst (run codeUnitCompare exampleCalls)) = Own (dedupeFields exampleNames)
   \<and> fieldsCache (fst (run codeUnitCompare exampleCalls))
       = [(''a.pdf||b.pdf'', dedupeFields exampleNames)]"
proof -
  let ?s = "fst (run codeUnitCompare exampleCalls)"
  have g: "getProperty (fieldsCache ?s) (selectionSignature codeUnitCompare (selectedPdfs ?s))
     = Undefined"
    by code_simp
  have p: "selectedPdfs ?s = [''c.pdf'']"
    by code_simp
  have n: "selectedPdfs ?s \<noteq> []"
    by (simp add: p)
  have e: "notFound (selectedPdfs ?s)
       = Inl (ApiError ''Request failed: Not Found'' 404 ''/api/combined_fields'')"
    by (simp add: notFound_def)
  have c: "combinedFields ?s = Own (dedupeFields exampleNames)"
    by code_simp
  have k: "fieldsCache ?s = [(''a.pdf||b.pdf'', dedupeFields exampleNames)]"
    by code_simp
  show ?thesis
    using g p c k
      fetchCombinedFields_failure [of "fst (run codeUnitCompare exampleCalls)" codeUnitCompare
        notFound, OF g n e]
    by (simp add: notFound_def)
qed

text \<open>
  C7: in a store whose cache has no entry for the empty signature, \<open>setSelectedPdfs([])\<close>
  is fulfilled with the combined fields empty and the cache as it was, and does not call
  the service; it looks the empty signature up in the cache, once, before it looks at
  the length of the selection. The counterexample is the store in which the selection
  \<open>[""]\<close>, whose signature is empty too, has been fetched: there the cache is read and
  the combined fields are set to the list it holds.
\<close>

theorem setSelectedPdfs_empty:
  assumes "map_of (fieldsCache s) '''' = None"
  shows "setSelectedPdfs localeCompare [] getCombinedFields s
           = (Inr (), s\<lparr>selectedPdfs := [], combinedFields := Own []\<rparr>, [CacheRead ''''])"
  using assms
  by (simp add: setSelectedPdfs_def fetchCombinedFields_def getProperty_def
      objectPrototypeMembers_def)

theorem setSelectedPdfs_empty_witness:
  "map_of (fieldsCache (fst (run codeUnitCompare exampleCalls))) '''' = None
   \<and> setSelectedPdfs codeUnitCompare [] answerX (fst (run codeUnitCompare exampleCalls))
       = (Inr (),
          (fst (run codeUnitCompare exampleCalls))\<lparr>selectedPdfs := [], combinedFields := Own []\<rparr>,
          [CacheRead ''''])
   \<and> combinedFields (fst (run codeUnitCompare exampleCalls)) \<noteq> Own []"
proof -
  have m: "map_of (fieldsCache (fst (run codeUnitCompare exampleCalls))) '''' = None"
    by code_simp
  have c: "combinedFields (fst (run codeUnitCompare exampleCalls)) \<noteq> Own []"
    by code_simp
  show ?thesis
    using m c setSelectedPdfs_empty [OF m, of codeUnitCompare answerX] by simp
qed

theorem setSelectedPdfs_empty_counterexample:
  "run codeUnitCompare emptyNameCalls
     = (initialState\<lparr>selectedPdfs := [''''], combinedFields := Own [field ''X'' Text],
          fieldsCache := [('''', [field ''X'' Text])]\<rparr>,
        [CacheRead '''', ServiceCall [''''] True, CacheWrite ''''])
   \<and> setSelectedPdfs codeUnitCompare [] notFound (fst (run codeUnitCompare emptyNameCalls))
     = (Inr (),
        initialState\<lparr>selectedPdfs := [], combinedFields := Own [field ''X'' Text],
          fieldsCache := [('''', [field ''X'' Text])]\<rparr>,
        [CacheRead ''''])
   \<and> combinedFields (fst (snd (setSelectedPdfs codeUnitCompare [] notFound
        (fst (run codeUnitCompare emptyNameCalls))))) \<noteq> Own []
   \<and> CacheRead '''' \<in> set (snd (snd (setSelectedPdfs codeUnitCompare [] notFound
        (fst (run codeUnitCompare emptyNameCalls)))))"
proof -
  have r: "run codeUnitCompare emptyNameCalls
     = (initialState\<lparr>selectedPdfs := [''''], combinedFields := Own [field ''X'' Text],
          fieldsCache := [('''', [field ''X'' Text])]\<rparr>,
        [CacheRead '''', ServiceCall [''''] True, CacheWrite ''''])"
    by code_simp
  have s: "setSelectedPdfs codeUnitCompare [] notFound (fst (run codeUnitCompare emptyNameCalls))
     = (Inr (),
        initialState\<lparr>selectedPdfs := [], combinedFields := Own [field ''X'' Text],
          fieldsCache := [('''', [field ''X'' Text])]\<rparr>,
        [CacheRead ''''])"
    by code_simp
  show ?thesis unfolding s unfolding r by (simp add: initialState_def)
qed

text \<open>
  C2: from the initial state, in a sequence of calls without a reset, the service
  answers at most once for each signature, so that of its calls for a signature all but
  one at most have failed. Once it has answered for a selection that \<^verbatim>\<open>localeCompare\<close>
  orders linearly, a \<open>setSelectedPdfs\<close> with any permutation of that selection finds
  the signature in the cache, sets the combined fields from it and does not call the
  service. For as long as it has not answered for the signature of a selection, which
  is not empty and whose signature is not the name of a member of \<^verbatim>\<open>Object.prototype\<close>,
  a \<open>setSelectedPdfs\<close> with that selection calls the service, and a call that fails
  leaves the cache as it was: in the counterexample the service is called twice for one
  signature.
\<close>

theorem service_answers_once_per_signature:
  assumes "Reset \<notin> set cs" and "run localeCompare cs = (s, log)"
  shows "length (filter (answeredFor localeCompare sig) log) \<le> 1
     \<and> length (filter (invokedFor localeCompare sig) log)
         \<le> 1 + length (filter (\<lambda>ev. invokedFor localeCompare sig ev
                                   \<and> \<not> answeredFor localeCompare sig ev) log)
     \<and> (ServiceCall pdfs True \<in> set log \<and> linearOn localeCompare pdfs
          \<and> mset pdfs' = mset pdfs \<longrightarrow>
          (\<exists>cached. map_of (fieldsCache s) (selectionSignature localeCompare pdfs) = Some cached \<and>
             setSelectedPdfs localeCompare pdfs' getCombinedFields s
               = (Inr (), s\<lparr>selectedPdfs := pdfs', combinedFields := Own cached\<rparr>,
                  [CacheRead (selectionSignature localeCompare pdfs)])))
     \<and> (sel \<noteq> [] \<and> selectionSignature localeCompare sel \<notin> set objectPrototypeMembers
          \<and> filter (answeredFor localeCompare (selectionSignature localeCompare sel)) log = [] \<longrightarrow>
          snd (snd (setSelectedPdfs localeCompare sel getCombinedFields s))
            = CacheRead (selectionSignature localeCompare sel)
                # ServiceCall sel (\<not> isl (getCombinedFields sel))
                # (if isl (getCombinedFields sel) then []
                   else [CacheWrite (selectionSignature localeCompare sel)])
          \<and> (isl (getCombinedFields sel) \<longrightarrow>
                fieldsCache (fst (snd (setSelectedPdfs localeCompare sel getCombinedFields s)))
                  = fieldsCache s))"
proof -
  have count: "length (filter (answeredFor localeCompare sg) log)
      = (if sg \<in> fst ` set (fieldsCache s) then 1 else 0)" for sg
    using answers_run [OF assms(1), of localeCompare sg] assms(2) by simp
  have once: "length (filter (answeredFor localeCompare sig) log) \<le> 1"
    by (simp add: count)
  have split: "length (filter (invokedFor localeCompare sig) l)
      = length (filter (answeredFor localeCompare sig) l)
        + length (filter (\<lambda>ev. invokedFor localeCompare sig ev
                                 \<and> \<not> answeredFor localeCompare sig ev) l)" for l
  proof (induction l)
    case Nil
    show ?case by simp
  next
    case (Cons ev l)
    then show ?case by (cases ev) auto
  qed
  have most: "length (filter (invokedFor localeCompare sig) log)
         \<le> 1 + length (filter (\<lambda>ev. invokedFor localeCompare sig ev
                                   \<and> \<not> answeredFor localeCompare sig ev) log)"
    using once split [of log] by simp
  have hit: "\<exists>cached. map_of (fieldsCache s) (selectionSignature localeCompare pdfs) = Some cached \<and>
             setSelectedPdfs localeCompare pdfs' getCombinedFields s
               = (Inr (), s\<lparr>selectedPdfs := pdfs', combinedFields := Own cached\<rparr>,
                  [CacheRead (selectionSignature localeCompare pdfs)])"
    if answered: "ServiceCall pdfs True \<in> set log" and lin: "linearOn localeCompare pdfs"
      and perm: "mset pdfs' = mset pdfs"
  proof -
    let ?sig = "selectionSignature localeCompare pdfs"
    have "ServiceCall pdfs True \<in> set (filter (answeredFor localeCompare ?sig) log)"
      using answered by simp
    then have "filter (answeredFor localeCompare ?sig) log \<noteq> []"
      by (metis empty_iff empty_set)
    then have "?sig \<in> fst ` set (fieldsCache s)"
      using count [of ?sig] by (auto split: if_splits)
    then obtain cached where c: "map_of (fieldsCache s) ?sig = Some cached"
      by (metis map_of_eq_None_iff not_Some_eq)
    have sg: "selectionSignature localeCompare pdfs' = ?sig"
      using selectionSignature_mset_cong [OF lin perm [symmetric]] by simp
    have "setSelectedPdfs localeCompare pdfs' getCombinedFields s
               = (Inr (), s\<lparr>selectedPdfs := pdfs', combinedFields := Own cached\<rparr>,
                  [CacheRead ?sig])"
      using setSelectedPdfs_hit [of s localeCompare pdfs' cached getCombinedFields] c
      by (simp add: sg)
    then show ?thesis using c by blast
  qed
  have miss: "snd (snd (setSelectedPdfs localeCompare sel getCombinedFields s))
            = CacheRead (selectionSignature localeCompare sel)
                # ServiceCall sel (\<not> isl (getCombinedFields sel))
                # (if isl (getCombinedFields sel) then []
                   else [CacheWrite (selectionSignature localeCompare sel)])
          \<and> (isl (getCombinedFields sel) \<longrightarrow>
                fieldsCache (fst (snd (setSelectedPdfs localeCompare sel getCombinedFields s)))
                  = fieldsCache s)"
    if ne: "sel \<noteq> []"
      and np: "selectionSignature localeCompare sel \<notin> set objectPrototypeMembers"
      and na: "filter (answeredFor localeCompare (selectionSignature localeCompare sel)) log = []"
  proof -
    let ?sig = "selectionSignature localeCompare sel"
    have "?sig \<notin> fst ` set (fieldsCache s)"
      using count [of ?sig] na by (auto split: if_splits)
    then have "getProperty (fieldsCache s) ?sig = Undefined"
      using np by (simp add: getProperty_Undefined map_of_eq_None_iff)
    then show ?thesis
      using setSelectedPdfs_miss [of s localeCompare sel getCombinedFields] ne by simp
  qed
  show ?thesis using once most hit miss by blast
qed

theorem service_answers_once_per_signature_witness:
  "Reset \<notin> set exampleCalls
   \<and> ServiceCall [''b.pdf'', ''a.pdf''] True \<in> set (snd (run codeUnitCompare exampleCalls))
   \<and> linearOn codeUnitCompare [''b.pdf'', ''a.pdf'']
   \<and> mset [''a.pdf'', ''b.pdf''] = mset [''b.pdf'', ''a.pdf'']
   \<and> length (filter (answeredFor codeUnitCompare ''a.pdf||b.pdf'')
        (snd (run codeUnitCompare exampleCalls))) = 1
   \<and> map_of (fieldsCache (fst (run codeUnitCompare exampleCalls)))
        (selectionSignature codeUnitCompare [''b.pdf'', ''a.pdf''])
       = Some (dedupeFields exampleNames)
   \<and> setSelectedPdfs codeUnitCompare [''a.pdf'', ''b.pdf''] notFound
        (fst (run codeUnitCompare exampleCalls))
       = (Inr (),
          (fst (run codeUnitCompare exampleCalls))\<lparr>selectedPdfs := [''a.pdf'', ''b.pdf''],
             combinedFields := Own (dedupeFields exampleNames)\<rparr>,
          [CacheRead (selectionSignature codeUnitCompare [''b.pdf'', ''a.pdf''])])
   \<and> selectionSignature codeUnitCompare [''c.pdf''] = ''c.pdf''
   \<and> ''c.pdf'' \<notin> set objectPrototypeMembers
   \<and> filter (answeredFor codeUnitCompare ''c.pdf'') (snd (run codeUnitCompare exampleCalls)) = []
   \<and> isl (notFound [''c.pdf''])
   \<and> snd (snd (setSelectedPdfs codeUnitCompare [''c.pdf''] notFound
        (fst (run codeUnitCompare exampleCalls))))
       = [CacheRead ''c.pdf'', ServiceCall [''c.pdf''] False]
   \<and> fieldsCache (fst (snd (setSelectedPdfs codeUnitCompare [''c.pdf''] notFound
        (fst (run codeUnitCompare exampleCalls)))))
       = fieldsCache (fst (run codeUnitCompare exampleCalls))"
proof -
  let ?s = "fst (run codeUnitCompare exampleCalls)"
  let ?log = "snd (run codeUnitCompare exampleCalls)"
  have nr: "Reset \<notin> set exampleCalls"
    by (simp add: exampleCalls_def)
  have a: "ServiceCall [''b.pdf'', ''a.pdf''] True \<in> set ?log"
    by code_simp
  have l: "linearOn codeUnitCompare [''b.pdf'', ''a.pdf'']"
    by (rule linearOn_codeUnitCompare)
  have m: "mset [''a.pdf'', ''b.pdf''] = mset [''b.pdf'', ''a.pdf'']"
    by (simp add: add.commute)
  have n: "length (filter (answeredFor codeUnitCompare ''a.pdf||b.pdf'') ?log) = 1"
    by code_simp
  have c: "map_of (fieldsCache ?s) (selectionSignature codeUnitCompare [''b.pdf'', ''a.pdf''])
       = Some (dedupeFields exampleNames)"
    by code_simp
  have sg: "selectionSignature codeUnitCompare [''c.pdf''] = ''c.pdf''"
    by simp
  have np: "''c.pdf'' \<notin> set objectPrototypeMembers"
    by code_simp
  have na: "filter (answeredFor codeUnitCompare ''c.pdf'') ?log = []"
    by code_simp
  have f: "isl (notFound [''c.pdf''])"
    by (simp add: notFound_def)
  have r: "run codeUnitCompare exampleCalls = (?s, ?log)"
    by simp
  have ne: "[''c.pdf''] \<noteq> ([] :: string list)"
    by simp
  from service_answers_once_per_signature [OF nr r, of "''a.pdf||b.pdf''"
      "[''b.pdf'', ''a.pdf'']" "[''a.pdf'', ''b.pdf'']" notFound "[''c.pdf'']"]
    a l m c sg np na f ne
  have "setSelectedPdfs codeUnitCompare [''a.pdf'', ''b.pdf''] notFound ?s
       = (Inr (),
          ?s\<lparr>selectedPdfs := [''a.pdf'', ''b.pdf''],
             combinedFields := Own (dedupeFields exampleNames)\<rparr>,
          [CacheRead (selectionSignature codeUnitCompare [''b.pdf'', ''a.pdf''])])
     \<and> snd (snd (setSelectedPdfs codeUnitCompare [''c.pdf''] notFound ?s))
       = [CacheRead ''c.pdf'', ServiceCall [''c.pdf''] False]
     \<and> fieldsCache (fst (snd (setSelectedPdfs codeUnitCompare [''c.pdf''] notFound ?s)))
       = fieldsCache ?s"
    by simp
  then show ?thesis using nr a l m n c sg np na f by simp
qed

theorem service_invoked_twice_counterexample:
  "snd (run codeUnitCompare failingCalls)
     = [CacheRead ''a.pdf'', ServiceCall [''a.pdf''] False,
        CacheRead ''a.pdf'', ServiceCall [''a.pdf''] False]
   \<and> selectionSignature codeUnitCompare [''a.pdf''] = ''a.pdf''
   \<and> length (filter (invokedFor codeUnitCompare ''a.pdf'') (snd (run codeUnitCompare failingCalls)))
       = 2"
proof -
  have l: "snd (run codeUnitCompare failingCalls)
     = [CacheRead ''a.pdf'', ServiceCall [''a.pdf''] False,
        CacheRead ''a.pdf'', ServiceCall [''a.pdf''] False]"
    by code_simp
  show ?thesis unfolding l by simp
qed

text \<open>
  C10: the store that selects a document named \<^verbatim>\<open>constructor\<close>, from the initial
  state. The signature is \<^verbatim>\<open>constructor\<close>, and the lookup of it in the cache, an object
  without a property of its own, finds the member of that name of \<^verbatim>\<open>Object.prototype\<close>,
  a function: the action takes it for a cached list, sets the combined fields to it
  and does not call the service. The combined fields are then neither a list nor an
  output of \<^const>\<open>dedupeFields\<close>, whatever the collation.
\<close>

theorem setSelectedPdfs_constructor:
  "run localeCompare constructorCalls
     = (initialState\<lparr>selectedPdfs := [''constructor''],
          combinedFields := Inherited ''constructor''\<rparr>,
        [CacheRead ''constructor''])
   \<and> \<not> dedupedValue (combinedFields (fst (run localeCompare constructorCalls)))"
proof -
  have g: "getProperty [] ''constructor'' = (Inherited ''constructor'' :: FieldDef list property)"
    by (simp add: getProperty_def objectPrototypeMembers_def)
  have r: "run localeCompare constructorCalls
     = (initialState\<lparr>selectedPdfs := [''constructor''],
          combinedFields := Inherited ''constructor''\<rparr>,
        [CacheRead ''constructor''])"
    by (simp add: run_def constructorCalls_def after_def setSelectedPdfs_def
        fetchCombinedFields_def initialState_def Let_def g)
  show ?thesis unfolding r by simp
qed

end
